theory Spec2Isabelle
  imports Main "HOL-Library.Multiset"
begin

section \<open>Data model\<close>

text \<open>
  Column names are JavaScript strings. A schema is the array of \<open>{name, type}\<close> entries the
  caller declares; a template is the object that maps a column name to its definition.
  The object is finite, so it is kept as an association list and read with \<open>map_of\<close>;
  \<open>template[cellName]\<close> for a name the object does not hold is \<open>undefined\<close>, and the
  property access that follows raises a TypeError. The field \<open>type\<close> of a cell
  definition is \<open>cellType\<close> here, the schema entry having taken the name.
\<close>

type_synonym cellName = string

datatype error =
    CircularDependencyError string
  | TypeError
  | FormulaError string

datatype CellKind = NumberKind | StringKind | BooleanKind

record CellSchema =
  name :: cellName
  type :: CellKind

type_synonym 'v RowState = "cellName \<rightharpoonup> 'v"

type_synonym 'v TypedInputs = "string \<rightharpoonup> 'v"

text \<open>
  What a formula reads: the previous row (\<open>null\<close> for the first row), the current row as
  far as it has been filled, and the inputs. Formulas are supplied by the caller; they are
  taken to be pure functions of what they read, and a formula that throws returns \<open>Inl\<close>.
\<close>

record 'v FormulaContext =
  prevRow :: "'v RowState option"
  currRow :: "'v RowState"
  inputs :: "'v TypedInputs"

record 'v CellDefinition =
  cellType :: CellKind
  formula :: "'v FormulaContext \<Rightarrow> error + 'v"
  currRowDependencies :: "cellName list"

type_synonym 'v RowTemplate = "(cellName \<times> 'v CellDefinition) list"

section \<open>The dependency compiler\<close>

text \<open>
  \<open>compileExecutionOrder\<close> has the same text in \<open>src/engine.ts\<close> and in the later
  variant of the engine. Its three local variables are the state that \<open>visit\<close> updates.
\<close>

record compileState =
  executionOrder :: "cellName list"
  visited :: "cellName set"
  visiting :: "cellName set"

text \<open>
  \<open>visit\<close> and the loop over \<open>cellDef.currRowDependencies\<close> inside it. A throw leaves
  both at once, so an error of a nested call is the result of the caller.
\<close>

function visit :: "'v RowTemplate \<Rightarrow> cellName \<Rightarrow> compileState \<Rightarrow> error + compileState"
  and visitDeps :: "'v RowTemplate \<Rightarrow> cellName list \<Rightarrow> compileState \<Rightarrow> error + compileState"
where
  "visit template cellName s =
     (if cellName \<in> visiting s then
        Inl (CircularDependencyError (''Circular dependency detected involving '' @ cellName))
      else if cellName \<in> visited s then Inr s
      else (case map_of template cellName of
              None \<Rightarrow> Inl TypeError
            | Some cellDef \<Rightarrow>
                (case visitDeps template (currRowDependencies cellDef)
                        (s\<lparr>visiting := insert cellName (visiting s)\<rparr>) of
                   Inl e \<Rightarrow> Inl e
                 | Inr s' \<Rightarrow>
                     Inr (s'\<lparr>visiting := visiting s' - {cellName},
                             visited := insert cellName (visited s'),
                             executionOrder := executionOrder s' @ [cellName]\<rparr>))))"
| "visitDeps template [] s = Inr s"
| "visitDeps template (dep # deps) s =
     (case visit template dep s of
        Inl e \<Rightarrow> Inl e
      | Inr s' \<Rightarrow> visitDeps template deps s')"
  by pat_completeness auto

text \<open>
  Termination: every nested \<open>visit\<close> runs with one more template key in \<open>visiting\<close>, and a
  call that returns leaves \<open>visiting\<close> as it found it.
\<close>

lemma visiting_preserved_partial:
  "visit_visitDeps_dom (Inl (T, c, s)) \<Longrightarrow> visit T c s = Inr s' \<Longrightarrow> visiting s' = visiting s"
  "visit_visitDeps_dom (Inr (T, ds, s)) \<Longrightarrow> visitDeps T ds s = Inr s' \<Longrightarrow> visiting s' = visiting s"
proof (induction T c s and T ds s arbitrary: s' and s' rule: visit_visitDeps.pinduct)
  case (1 T c s)
  show ?case
  proof (cases "c \<in> visiting s")
    case True
    with 1(1,3) show ?thesis by (simp add: visit.psimps)
  next
    case nv: False
    show ?thesis
    proof (cases "c \<in> visited s")
      case True
      with nv 1(1,3) show ?thesis by (simp add: visit.psimps)
    next
      case nd: False
      show ?thesis
      proof (cases "map_of T c")
        case None
        with nv nd 1(1,3) show ?thesis by (simp add: visit.psimps)
      next
        case (Some d)
        show ?thesis
        proof (cases "visitDeps T (currRowDependencies d) (s\<lparr>visiting := insert c (visiting s)\<rparr>)")
          case (Inl e)
          with nv nd Some 1(1,3) show ?thesis by (simp add: visit.psimps)
        next
          case (Inr s1)
          from 1(2)[OF nv nd Some Inr] have "visiting s1 = insert c (visiting s)" by simp
          moreover from nv nd Some Inr 1(1,3)
          have "s' = s1\<lparr>visiting := visiting s1 - {c}, visited := insert c (visited s1),
                         executionOrder := executionOrder s1 @ [c]\<rparr>"
            by (simp add: visit.psimps)
          ultimately show ?thesis using nv by auto
        qed
      qed
    qed
  qed
next
  case (2 T s)
  then show ?case by (simp add: visitDeps.psimps)
next
  case (3 T d ds s)
  show ?case
  proof (cases "visit T d s")
    case (Inl e)
    with 3(1,4) show ?thesis by (simp add: visitDeps.psimps)
  next
    case (Inr s1)
    with 3(1,4) have "visitDeps T ds s1 = Inr s'" by (simp add: visitDeps.psimps)
    from 3(3)[OF Inr this] 3(2)[OF Inr] show ?thesis by simp
  qed
qed

termination visit
proof (relation "measures
    [\<lambda>x. case x of Inl (T, c, s) \<Rightarrow> card (fst ` set T - visiting s)
                     | Inr (T, ds, s) \<Rightarrow> card (fst ` set T - visiting s),
     \<lambda>x. case x of Inl (T, c, s) \<Rightarrow> 0 | Inr (T, ds, s) \<Rightarrow> Suc (length ds)]", goal_cases)
  case 1
  then show ?case by simp
next
  case (2 T c s d)
  have "c \<in> fst ` set T" using 2 by (auto dest: map_of_SomeD intro: rev_image_eqI)
  then have "card (fst ` set T - insert c (visiting s)) < card (fst ` set T - visiting s)"
    using 2 by (intro psubset_card_mono) auto
  then show ?case by simp
next
  case (3 T d ds s)
  then show ?case by simp
next
  case (4 T d ds s s')
  then have "visiting s' = visiting s" by (simp add: visiting_preserved_partial)
  then show ?case by simp
qed

declare visit.simps [simp del]

text \<open>
  The loop over the schema, \<open>for (const { name } of cellSchema)\<close>, and the function itself:
  the state starts empty and the order is returned when no call has thrown.
\<close>

fun compileLoop :: "'v RowTemplate \<Rightarrow> CellSchema list \<Rightarrow> compileState \<Rightarrow> error + compileState" where
  "compileLoop template [] s = Inr s"
| "compileLoop template (cell # rest) s =
     (if name cell \<notin> visited s then
        (case visit template (name cell) s of
           Inl e \<Rightarrow> Inl e
         | Inr s' \<Rightarrow> compileLoop template rest s')
      else compileLoop template rest s)"

definition compileExecutionOrder :: "'v RowTemplate \<Rightarrow> CellSchema list \<Rightarrow> error + cellName list" where
  "compileExecutionOrder template cellSchema =
     (case compileLoop template cellSchema
             \<lparr>executionOrder = [], visited = {}, visiting = {}\<rparr> of
        Inl e \<Rightarrow> Inl e
      | Inr s \<Rightarrow> Inr (executionOrder s))"

section \<open>The row evaluator and the sequence driver\<close>

text \<open>
  \<open>evaluateRow\<close> writes into the object it is given as \<open>rowState\<close>, and the formulas read
  the previous row and the inputs through references held by the context object. Rows
  and inputs are therefore kept in a store of objects: an address names an object, the
  store gives the properties of each object, and \<open>fresh\<close> is the next unused address.
  A reference is valid when it is below \<open>fresh\<close>.
\<close>

type_synonym addr = nat

record 'v store =
  objects :: "addr \<Rightarrow> 'v RowState"
  fresh :: addr

text \<open>The object literal \<open>{}\<close>: a new object with no properties.\<close>

definition newObject :: "'v store \<Rightarrow> addr \<times> 'v store" where
  "newObject st =
     (fresh st, st\<lparr>objects := (objects st)(fresh st := Map.empty), fresh := Suc (fresh st)\<rparr>)"

text \<open>
  The context \<open>{prevRow: prevRowState, currRow: rowState, inputs}\<close> holds three references.
  A formula is a function of what it can read through them at the moment it is called.
\<close>

definition formulaContext :: "addr option \<Rightarrow> addr \<Rightarrow> addr \<Rightarrow> 'v store \<Rightarrow> 'v FormulaContext" where
  "formulaContext prevRowState rowState inp st =
     \<lparr>prevRow = map_option (objects st) prevRowState,
      currRow = objects st rowState,
      inputs = objects st inp\<rparr>"

text \<open>
  \<open>evaluateRow\<close> of the later variant of the engine: the loop over the execution order,
  with \<open>rowState[cellName] = result\<close> as an update of the object at \<open>rowState\<close>.
\<close>

fun evaluateRow ::
  "'v RowTemplate \<Rightarrow> cellName list \<Rightarrow> addr \<Rightarrow> addr option \<Rightarrow> addr \<Rightarrow> 'v store \<Rightarrow> error + 'v store"
where
  "evaluateRow template [] rowState prevRowState inp st = Inr st"
| "evaluateRow template (cellName # rest) rowState prevRowState inp st =
     (case map_of template cellName of
        None \<Rightarrow> Inl TypeError
      | Some cellDef \<Rightarrow>
          (case formula cellDef (formulaContext prevRowState rowState inp st) of
             Inl e \<Rightarrow> Inl e
           | Inr result \<Rightarrow>
               evaluateRow template rest rowState prevRowState inp
                 (st\<lparr>objects := (objects st)
                        (rowState := (objects st rowState)(cellName \<mapsto> result))\<rparr>)))"

text \<open>
  \<open>processRows\<close>: the loop \<open>for (let i = 0; i < numRows; i++)\<close> with its variables
  \<open>rows\<close> and \<open>prevRowState\<close>. \<open>numRows\<close> is a JavaScript number; the model covers the
  integers, and a negative count gives no iteration.
\<close>

function processRowsLoop ::
  "'v RowTemplate \<Rightarrow> cellName list \<Rightarrow> addr \<Rightarrow> int \<Rightarrow> int \<Rightarrow> addr list \<Rightarrow> addr option \<Rightarrow> 'v store
    \<Rightarrow> error + (addr list \<times> 'v store)"
where
  "processRowsLoop template order inp numRows i rows prevRowState st =
     (if i < numRows then
        (case newObject st of
           (newRowState, st1) \<Rightarrow>
             (case evaluateRow template order newRowState prevRowState inp st1 of
                Inl e \<Rightarrow> Inl e
              | Inr st2 \<Rightarrow>
                  processRowsLoop template order inp numRows (i + 1)
                    (rows @ [newRowState]) (Some newRowState) st2))
      else Inr (rows, st))"
  by pat_completeness auto

termination processRowsLoop
  by (relation "measure (\<lambda>(template, order, inp, numRows, i, rows, prevRowState, st).
                   nat (numRows - i))") auto

declare processRowsLoop.simps [simp del]

definition processRows ::
  "CellSchema list \<Rightarrow> 'v RowTemplate \<Rightarrow> addr \<Rightarrow> int \<Rightarrow> 'v store \<Rightarrow> error + (addr list \<times> 'v store)"
where
  "processRows cellSchema template inp numRows st =
     (case compileExecutionOrder template cellSchema of
        Inl e \<Rightarrow> Inl e
      | Inr order \<Rightarrow> processRowsLoop template order inp numRows 0 [] None st)"

text \<open>The returned array, read in the store the call leaves: the rows as the caller sees them.\<close>

definition rowsOf :: "addr list \<times> 'v store \<Rightarrow> 'v RowState list" where
  "rowsOf r = map (objects (snd r)) (fst r)"

section \<open>JavaScript values and the variant in src/engine.ts\<close>

text \<open>
  The engine never looks inside a cell value, so the definitions above are generic in it.
  The scenarios and \<open>src/engine.ts\<close> need concrete values. Numbers are IEEE doubles in
  JavaScript; the model has the integers, on which the arithmetic of the scenarios is exact.
\<close>

datatype jsValue =
    UndefinedV
  | NumberV int
  | StringV string
  | BooleanV bool
  | ObjectV "(string \<times> jsValue) list"

text \<open>\<open>obj.k\<close>: a property that is absent reads as \<open>undefined\<close>.\<close>

definition getProp :: "jsValue RowState \<Rightarrow> string \<Rightarrow> jsValue" where
  "getProp obj k = (case obj k of None \<Rightarrow> UndefinedV | Some v \<Rightarrow> v)"

text \<open>
  \<open>+\<close> on two numbers. Other operands (string concatenation, \<open>NaN\<close>) are outside the
  modelled fragment and are reported as a failing formula.
\<close>

fun jsAdd :: "jsValue \<Rightarrow> jsValue \<Rightarrow> error + jsValue" where
  "jsAdd (NumberV x) (NumberV y) = Inr (NumberV (x + y))"
| "jsAdd _ _ = Inl (FormulaError ''operands outside the modelled fragment'')"

text \<open>
  \<open>evaluateRow\<close> and \<open>processRows\<close> of \<open>src/engine.ts\<close>. They differ from the later
  variant in one line: the row receives the cell state \<open>{ evaluatedValue: result }\<close>.
  \<open>processRows\<close> has the same text and calls the \<open>evaluateRow\<close> of its own file.
\<close>

definition cellState :: "jsValue \<Rightarrow> jsValue" where
  "cellState result = ObjectV [(''evaluatedValue'', result)]"

fun engine_evaluateRow ::
  "jsValue RowTemplate \<Rightarrow> cellName list \<Rightarrow> addr \<Rightarrow> addr option \<Rightarrow> addr \<Rightarrow> jsValue store
    \<Rightarrow> error + jsValue store"
where
  "engine_evaluateRow template [] rowState prevRowState inp st = Inr st"
| "engine_evaluateRow template (cellName # rest) rowState prevRowState inp st =
     (case map_of template cellName of
        None \<Rightarrow> Inl TypeError
      | Some cellDef \<Rightarrow>
          (case formula cellDef (formulaContext prevRowState rowState inp st) of
             Inl e \<Rightarrow> Inl e
           | Inr result \<Rightarrow>
               engine_evaluateRow template rest rowState prevRowState inp
                 (st\<lparr>objects := (objects st)
                        (rowState := (objects st rowState)(cellName \<mapsto> cellState result))\<rparr>)))"

function engine_processRowsLoop ::
  "jsValue RowTemplate \<Rightarrow> cellName list \<Rightarrow> addr \<Rightarrow> int \<Rightarrow> int \<Rightarrow> addr list \<Rightarrow> addr option
    \<Rightarrow> jsValue store \<Rightarrow> error + (addr list \<times> jsValue store)"
where
  "engine_processRowsLoop template order inp numRows i rows prevRowState st =
     (if i < numRows then
        (case newObject st of
           (newRowState, st1) \<Rightarrow>
             (case engine_evaluateRow template order newRowState prevRowState inp st1 of
                Inl e \<Rightarrow> Inl e
              | Inr st2 \<Rightarrow>
                  engine_processRowsLoop template order inp numRows (i + 1)
                    (rows @ [newRowState]) (Some newRowState) st2))
      else Inr (rows, st))"
  by pat_completeness auto

termination engine_processRowsLoop
  by (relation "measure (\<lambda>(template, order, inp, numRows, i, rows, prevRowState, st).
                   nat (numRows - i))") auto

declare engine_processRowsLoop.simps [simp del]

definition engine_processRows ::
  "CellSchema list \<Rightarrow> jsValue RowTemplate \<Rightarrow> addr \<Rightarrow> int \<Rightarrow> jsValue store
    \<Rightarrow> error + (addr list \<times> jsValue store)"
where
  "engine_processRows cellSchema template inp numRows st =
     (case compileExecutionOrder template cellSchema of
        Inl e \<Rightarrow> Inl e
      | Inr order \<Rightarrow> engine_processRowsLoop template order inp numRows 0 [] None st)"

section \<open>The scenarios of the test suite\<close>

text \<open>
  The basic example: \<open>a\<close> returns \<open>currRow.b\<close> and depends on \<open>b\<close>; \<open>b\<close> returns
  \<open>prevRow ? prevRow.b + 1 : initialValue\<close>.
\<close>

definition basicSchema :: "CellSchema list" where
  "basicSchema = [\<lparr>name = ''a'', type = NumberKind\<rparr>, \<lparr>name = ''b'', type = NumberKind\<rparr>]"

definition basicTemplate :: "jsValue RowTemplate" where
  "basicTemplate =
     [(''a'', \<lparr>cellType = NumberKind,
              formula = (\<lambda>ctx. Inr (getProp (currRow ctx) ''b'')),
              currRowDependencies = [''b'']\<rparr>),
      (''b'', \<lparr>cellType = NumberKind,
              formula = (\<lambda>ctx. case prevRow ctx of
                                  Some p \<Rightarrow> jsAdd (getProp p ''b'') (NumberV 1)
                                | None \<Rightarrow> Inr (getProp (inputs ctx) ''initialValue'')),
              currRowDependencies = []\<rparr>)]"

text \<open>A store that holds the inputs \<open>{initialValue: 5}\<close> at address 0 and nothing else.\<close>

definition basicStore :: "jsValue store" where
  "basicStore = \<lparr>objects = (\<lambda>_. Map.empty)(0 := [''initialValue'' \<mapsto> NumberV 5]), fresh = 1\<rparr>"

text \<open>
  The circular example: \<open>a\<close> returns \<open>currRow.b + 1\<close> and depends on \<open>b\<close>, \<open>b\<close> returns
  \<open>currRow.a + 1\<close> and depends on \<open>a\<close>.
\<close>

definition circularTemplate :: "jsValue RowTemplate" where
  "circularTemplate =
     [(''a'', \<lparr>cellType = NumberKind,
              formula = (\<lambda>ctx. jsAdd (getProp (currRow ctx) ''b'') (NumberV 1)),
              currRowDependencies = [''b'']\<rparr>),
      (''b'', \<lparr>cellType = NumberKind,
              formula = (\<lambda>ctx. jsAdd (getProp (currRow ctx) ''a'') (NumberV 1)),
              currRowDependencies = [''a'']\<rparr>)]"

text \<open>
  Two columns without dependencies, after the constant formula \<open>() => 42\<close> of the type
  safety test.
\<close>

definition constantSchema :: "CellSchema list" where
  "constantSchema =
     [\<lparr>name = ''number'', type = NumberKind\<rparr>, \<lparr>name = ''flag'', type = BooleanKind\<rparr>]"

definition constantTemplate :: "jsValue RowTemplate" where
  "constantTemplate =
     [(''flag'', \<lparr>cellType = BooleanKind,
                 formula = (\<lambda>ctx. Inr (BooleanV True)),
                 currRowDependencies = []\<rparr>),
      (''number'', \<lparr>cellType = NumberKind,
                   formula = (\<lambda>ctx. Inr (NumberV 42)),
                   currRowDependencies = []\<rparr>)]"

text \<open>
  Two more stores for the examples: one that holds the same inputs at another address
  beside an unrelated object, and one in which the first row of the basic example is
  complete and the object of the second row has been created.
\<close>

definition otherStore :: "jsValue store" where
  "otherStore =
     \<lparr>objects = (\<lambda>_. Map.empty)
        (0 := [''label'' \<mapsto> StringV ''unrelated''],
         4 := [''initialValue'' \<mapsto> NumberV 5]),
      fresh = 7\<rparr>"

definition secondRowStore :: "jsValue store" where
  "secondRowStore =
     \<lparr>objects = (\<lambda>_. Map.empty)
        (0 := [''initialValue'' \<mapsto> NumberV 5],
         1 := [''b'' \<mapsto> NumberV 5, ''a'' \<mapsto> NumberV 5]),
      fresh = 3\<rparr>"

section \<open>Notions used in the statements\<close>

text \<open>
  The same-row dependency graph of a template: an edge from a column to each name in its
  \<open>currRowDependencies\<close>.
\<close>

definition dependsOn :: "'v RowTemplate \<Rightarrow> (cellName \<times> cellName) set" where
  "dependsOn T = {(c, d). \<exists>cellDef. map_of T c = Some cellDef \<and> d \<in> set (currRowDependencies cellDef)}"

text \<open>
  An order puts dependencies first when every name in it has a definition whose
  dependencies all occur at smaller indices.
\<close>

definition dependenciesFirst :: "'v RowTemplate \<Rightarrow> cellName list \<Rightarrow> bool" where
  "dependenciesFirst T ord \<longleftrightarrow>
     (\<forall>i<length ord. \<exists>cellDef. map_of T (ord ! i) = Some cellDef \<and>
        set (currRowDependencies cellDef) \<subseteq> set (take i ord))"

text \<open>
  The invariant of the traversal: the order lists exactly the visited names, once each and
  dependencies first, and no visited name is in progress.
\<close>

definition compileInv :: "'v RowTemplate \<Rightarrow> compileState \<Rightarrow> bool" where
  "compileInv T s \<longleftrightarrow>
     set (executionOrder s) = visited s \<and> distinct (executionOrder s) \<and>
     dependenciesFirst T (executionOrder s) \<and> visited s \<inter> visiting s = {}"

text \<open>
  The data model asks of a template that it defines every column of the schema and that
  every dependency is a column of the schema. The compiler does not check this.
\<close>

definition wellFormed :: "'v RowTemplate \<Rightarrow> CellSchema list \<Rightarrow> bool" where
  "wellFormed T S \<longleftrightarrow>
     (\<forall>c\<in>name ` set S. \<exists>cellDef. map_of T c = Some cellDef \<and>
        set (currRowDependencies cellDef) \<subseteq> name ` set S)"

text \<open>A cycle of the dependency graph that some column of the schema reaches.\<close>

definition hasCycle :: "'v RowTemplate \<Rightarrow> CellSchema list \<Rightarrow> bool" where
  "hasCycle T S \<longleftrightarrow>
     (\<exists>r\<in>name ` set S. \<exists>c. (r, c) \<in> (dependsOn T)\<^sup>* \<and> (c, c) \<in> (dependsOn T)\<^sup>+)"

text \<open>
  A row is computed from a previous row and the inputs along an order when each of its
  cells is the result of the cell's formula, run on the previous row, on the cells that
  precede it in the order, and on the inputs.
\<close>

definition cellsComputed ::
  "'v RowTemplate \<Rightarrow> cellName list \<Rightarrow> 'v RowState option \<Rightarrow> 'v TypedInputs \<Rightarrow> 'v RowState \<Rightarrow> bool"
where
  "cellsComputed T ord prev inps row \<longleftrightarrow>
     (\<forall>k<length ord. \<exists>cellDef v. map_of T (ord ! k) = Some cellDef \<and>
        formula cellDef \<lparr>prevRow = prev, currRow = row |` set (take k ord), inputs = inps\<rparr> = Inr v \<and>
        row (ord ! k) = Some v)"

text \<open>
  The shape of a row of \<open>src/engine.ts\<close>: every value \<open>v\<close> appears as
  \<open>{ evaluatedValue: v }\<close>. A template of \<open>src/engine.ts\<close> and a template of the later
  variant correspond when they have the same columns and dependencies and the formulas of
  the former, reading cell states, return what the formulas of the latter return reading
  the bare values.
\<close>

definition wrapRow :: "jsValue RowState \<Rightarrow> jsValue RowState" where
  "wrapRow row = (\<lambda>x. map_option cellState (row x))"

definition wrapContext :: "jsValue FormulaContext \<Rightarrow> jsValue FormulaContext" where
  "wrapContext ctx =
     \<lparr>prevRow = map_option wrapRow (prevRow ctx), currRow = wrapRow (currRow ctx),
      inputs = inputs ctx\<rparr>"

definition readsCellStates :: "jsValue RowTemplate \<Rightarrow> jsValue RowTemplate \<Rightarrow> bool" where
  "readsCellStates T T' \<longleftrightarrow>
     (\<forall>c. rel_option
            (\<lambda>d d'. currRowDependencies d = currRowDependencies d' \<and>
                     (\<forall>ctx. formula d' ctx = formula d (wrapContext ctx)))
            (map_of T c) (map_of T' c))"

section \<open>Properties of the dependency compiler\<close>

subsection \<open>The traversal keeps its invariant\<close>

lemma dependenciesFirst_Nil: "dependenciesFirst T []"
  by (simp add: dependenciesFirst_def)

lemma dependenciesFirst_snoc:
  assumes "dependenciesFirst T ord" "map_of T c = Some cellDef"
    "set (currRowDependencies cellDef) \<subseteq> set ord"
  shows "dependenciesFirst T (ord @ [c])"
  unfolding dependenciesFirst_def
proof (intro allI impI)
  fix i assume i: "i < length (ord @ [c])"
  show "\<exists>cellDef. map_of T ((ord @ [c]) ! i) = Some cellDef \<and>
          set (currRowDependencies cellDef) \<subseteq> set (take i (ord @ [c]))"
  proof (cases "i < length ord")
    case True
    with assms(1) show ?thesis by (simp add: dependenciesFirst_def nth_append)
  next
    case False
    with i have "i = length ord" by simp
    with assms(2,3) show ?thesis by simp
  qed
qed

lemma visit_inv:
  "visit T c s = Inr s' \<Longrightarrow> compileInv T s \<Longrightarrow>
     compileInv T s' \<and> visiting s' = visiting s \<and> c \<in> visited s' \<and> visited s \<subseteq> visited s'
     \<and> (\<exists>new. executionOrder s' = executionOrder s @ new)"
  "visitDeps T ds s = Inr s' \<Longrightarrow> compileInv T s \<Longrightarrow>
     compileInv T s' \<and> visiting s' = visiting s \<and> set ds \<subseteq> visited s' \<and> visited s \<subseteq> visited s'
     \<and> (\<exists>new. executionOrder s' = executionOrder s @ new)"
proof (induction T c s and T ds s arbitrary: s' and s' rule: visit_visitDeps.induct)
  case (1 T c s)
  show ?case
  proof (cases "c \<in> visiting s")
    case True
    with 1(2) show ?thesis by (simp add: visit.simps)
  next
    case nv: False
    show ?thesis
    proof (cases "c \<in> visited s")
      case True
      with nv 1(2,3) show ?thesis by (simp add: visit.simps)
    next
      case nd: False
      show ?thesis
      proof (cases "map_of T c")
        case None
        with nv nd 1(2) show ?thesis by (simp add: visit.simps)
      next
        case (Some d)
        show ?thesis
        proof (cases "visitDeps T (currRowDependencies d) (s\<lparr>visiting := insert c (visiting s)\<rparr>)")
          case (Inl e)
          with nv nd Some 1(2) show ?thesis by (simp add: visit.simps)
        next
          case (Inr s1)
          have inv0: "compileInv T (s\<lparr>visiting := insert c (visiting s)\<rparr>)"
            using 1(3) nd by (auto simp: compileInv_def)
          from 1(1)[OF nv nd Some Inr inv0]
          have s1: "compileInv T s1" "visiting s1 = insert c (visiting s)"
            "set (currRowDependencies d) \<subseteq> visited s1" "visited s \<subseteq> visited s1"
            and pre: "\<exists>new. executionOrder s1 = executionOrder s @ new"
            by auto
          from nv nd Some Inr 1(2)
          have s': "s' = s1\<lparr>visiting := visiting s1 - {c}, visited := insert c (visited s1),
                         executionOrder := executionOrder s1 @ [c]\<rparr>"
            by (simp add: visit.simps)
          have cn: "c \<notin> visited s1" using s1(1,2) by (auto simp: compileInv_def)
          have "dependenciesFirst T (executionOrder s1 @ [c])"
            using s1(1,3) Some by (intro dependenciesFirst_snoc) (auto simp: compileInv_def)
          then have "compileInv T s'"
            using s1(1,2) cn unfolding s' by (auto simp: compileInv_def)
          moreover have "visiting s' = visiting s" using s1(2) nv unfolding s' by auto
          moreover have "c \<in> visited s'" unfolding s' by simp
          moreover have "visited s \<subseteq> visited s'" using s1(4) unfolding s' by auto
          moreover have "\<exists>new. executionOrder s' = executionOrder s @ new"
            using pre unfolding s' by auto
          ultimately show ?thesis by blast
        qed
      qed
    qed
  qed
next
  case (2 T s)
  then show ?case by simp
next
  case (3 T d ds s)
  show ?case
  proof (cases "visit T d s")
    case (Inl e)
    with 3(3) show ?thesis by simp
  next
    case (Inr s1)
    with 3(3) have run: "visitDeps T ds s1 = Inr s'" by simp
    from 3(1)[OF Inr 3(4)]
    have a: "compileInv T s1" "visiting s1 = visiting s" "d \<in> visited s1" "visited s \<subseteq> visited s1"
      "\<exists>new. executionOrder s1 = executionOrder s @ new" by auto
    from 3(2)[OF Inr run a(1)]
    have b: "compileInv T s'" "visiting s' = visiting s1" "set ds \<subseteq> visited s'" "visited s1 \<subseteq> visited s'"
      "\<exists>new. executionOrder s' = executionOrder s1 @ new" by auto
    from a(5) b(5) have "\<exists>new. executionOrder s' = executionOrder s @ new" by auto
    with a b show ?thesis by auto
  qed
qed

lemma compileInv_init: "compileInv T \<lparr>executionOrder = [], visited = {}, visiting = {}\<rparr>"
  by (simp add: compileInv_def dependenciesFirst_Nil)

lemma compileLoop_inv:
  "compileLoop T S s = Inr s' \<Longrightarrow> compileInv T s \<Longrightarrow>
     compileInv T s' \<and> visiting s' = visiting s \<and> name ` set S \<subseteq> visited s' \<and> visited s \<subseteq> visited s'"
proof (induction S arbitrary: s)
  case Nil
  then show ?case by simp
next
  case (Cons cell rest)
  show ?case
  proof (cases "name cell \<in> visited s")
    case True
    with Cons.prems have "compileLoop T rest s = Inr s'" by simp
    from Cons.IH[OF this Cons.prems(2)] True show ?thesis by auto
  next
    case False
    show ?thesis
    proof (cases "visit T (name cell) s")
      case (Inl e)
      with False Cons.prems show ?thesis by simp
    next
      case (Inr s1)
      with False Cons.prems have run: "compileLoop T rest s1 = Inr s'" by simp
      from visit_inv(1)[OF Inr Cons.prems(2)]
      have a: "compileInv T s1" "visiting s1 = visiting s" "name cell \<in> visited s1"
        "visited s \<subseteq> visited s1" by auto
      from Cons.IH[OF run a(1)] a show ?thesis by auto
    qed
  qed
qed

lemma compileExecutionOrder_Inr:
  assumes "compileExecutionOrder T S = Inr ord"
  shows "distinct ord" "dependenciesFirst T ord" "name ` set S \<subseteq> set ord"
proof -
  from assms obtain s' where
    run: "compileLoop T S \<lparr>executionOrder = [], visited = {}, visiting = {}\<rparr> = Inr s'"
    and ord: "ord = executionOrder s'"
    by (auto simp: compileExecutionOrder_def split: sum.splits)
  from compileLoop_inv[OF run compileInv_init]
  have "compileInv T s'" "name ` set S \<subseteq> visited s'" by auto
  then show "distinct ord" "dependenciesFirst T ord" "name ` set S \<subseteq> set ord"
    unfolding ord by (auto simp: compileInv_def)
qed

lemma dependenciesFirst_index:
  assumes "dependenciesFirst T ord" "j < length ord" "map_of T (ord ! j) = Some cellDef"
    "d \<in> set (currRowDependencies cellDef)"
  shows "\<exists>i<j. ord ! i = d"
proof -
  from assms(1,2) obtain cellDef' where "map_of T (ord ! j) = Some cellDef'"
    "set (currRowDependencies cellDef') \<subseteq> set (take j ord)"
    unfolding dependenciesFirst_def by blast
  with assms(3) have "set (currRowDependencies cellDef) \<subseteq> set (take j ord)" by simp
  with assms(4) have "d \<in> set (take j ord)" by auto
  then obtain i where "i < length (take j ord)" "take j ord ! i = d"
    by (auto simp: in_set_conv_nth)
  then show ?thesis using assms(2) by (intro exI[of _ i]) auto
qed

subsection \<open>The traversal stays inside a set of names closed under dependencies\<close>

lemma visit_closed:
  "visit T c s = Inr s' \<Longrightarrow> c \<in> N \<Longrightarrow> visited s \<subseteq> N \<Longrightarrow>
     (\<forall>x\<in>N. \<forall>cellDef. map_of T x = Some cellDef \<longrightarrow> set (currRowDependencies cellDef) \<subseteq> N) \<Longrightarrow>
     visited s' \<subseteq> N"
  "visitDeps T ds s = Inr s' \<Longrightarrow> set ds \<subseteq> N \<Longrightarrow> visited s \<subseteq> N \<Longrightarrow>
     (\<forall>x\<in>N. \<forall>cellDef. map_of T x = Some cellDef \<longrightarrow> set (currRowDependencies cellDef) \<subseteq> N) \<Longrightarrow>
     visited s' \<subseteq> N"
proof (induction T c s and T ds s arbitrary: s' and s' rule: visit_visitDeps.induct)
  case (1 T c s)
  show ?case
  proof (cases "c \<in> visiting s \<or> c \<in> visited s \<or> map_of T c = None")
    case True
    with 1(2,4) show ?thesis by (auto simp: visit.simps split: if_splits)
  next
    case False
    then obtain d where c: "c \<notin> visiting s" "c \<notin> visited s" "map_of T c = Some d" by auto
    with 1(2) obtain s1 where
      s1: "visitDeps T (currRowDependencies d) (s\<lparr>visiting := insert c (visiting s)\<rparr>) = Inr s1"
      and s': "s' = s1\<lparr>visiting := visiting s1 - {c}, visited := insert c (visited s1),
                         executionOrder := executionOrder s1 @ [c]\<rparr>"
      by (auto simp: visit.simps split: sum.splits)
    have "set (currRowDependencies d) \<subseteq> N" using 1(3,5) c(3) by blast
    from 1(1)[OF c s1 this _ 1(5)] 1(4) have "visited s1 \<subseteq> N" by simp
    with 1(3) show ?thesis unfolding s' by simp
  qed
next
  case (2 T s)
  then show ?case by simp
next
  case (3 T d ds s)
  from 3(3) obtain s1 where s1: "visit T d s = Inr s1" and run: "visitDeps T ds s1 = Inr s'"
    by (auto split: sum.splits)
  from 3(1)[OF s1 _ 3(5,6)] 3(4) have "visited s1 \<subseteq> N" by simp
  from 3(2)[OF s1 run _ this 3(6)] 3(4) show ?case by simp
qed

lemma compileLoop_closed:
  "compileLoop T S s = Inr s' \<Longrightarrow> name ` set S \<subseteq> N \<Longrightarrow> visited s \<subseteq> N \<Longrightarrow>
     (\<forall>x\<in>N. \<forall>cellDef. map_of T x = Some cellDef \<longrightarrow> set (currRowDependencies cellDef) \<subseteq> N) \<Longrightarrow>
     visited s' \<subseteq> N"
proof (induction S arbitrary: s)
  case Nil
  then show ?case by simp
next
  case (Cons cell rest)
  show ?case
  proof (cases "name cell \<in> visited s")
    case True
    with Cons.prems(1) have "compileLoop T rest s = Inr s'" by simp
    from Cons.IH[OF this _ Cons.prems(3,4)] Cons.prems(2) show ?thesis by simp
  next
    case False
    with Cons.prems(1) obtain s1 where s1: "visit T (name cell) s = Inr s1"
      and run: "compileLoop T rest s1 = Inr s'" by (auto split: sum.splits)
    from visit_closed(1)[OF s1 _ Cons.prems(3,4)] Cons.prems(2) have "visited s1 \<subseteq> N" by simp
    from Cons.IH[OF run _ this Cons.prems(4)] Cons.prems(2) show ?thesis by simp
  qed
qed

subsection \<open>The errors of the traversal\<close>

lemma visit_visiting:
  "visit T c s = Inr s' \<Longrightarrow> visiting s' = visiting s"
  "visitDeps T ds s = Inr s' \<Longrightarrow> visiting s' = visiting s"
proof (induction T c s and T ds s arbitrary: s' and s' rule: visit_visitDeps.induct)
  case (1 T c s)
  show ?case
  proof (cases "c \<in> visiting s \<or> c \<in> visited s \<or> map_of T c = None")
    case True
    with 1(2) show ?thesis by (auto simp: visit.simps split: if_splits)
  next
    case False
    then obtain d where c: "c \<notin> visiting s" "c \<notin> visited s" "map_of T c = Some d" by auto
    with 1(2) obtain s1 where
      s1: "visitDeps T (currRowDependencies d) (s\<lparr>visiting := insert c (visiting s)\<rparr>) = Inr s1"
      and s': "s' = s1\<lparr>visiting := visiting s1 - {c}, visited := insert c (visited s1),
                         executionOrder := executionOrder s1 @ [c]\<rparr>"
      by (auto simp: visit.simps split: sum.splits)
    from 1(1)[OF c s1] have "visiting s1 = insert c (visiting s)" by simp
    with c(1) show ?thesis unfolding s' by auto
  qed
next
  case (2 T s)
  then show ?case by simp
next
  case (3 T d ds s)
  from 3(3) obtain s1 where s1: "visit T d s = Inr s1" and run: "visitDeps T ds s1 = Inr s'"
    by (auto split: sum.splits)
  from 3(1)[OF s1] 3(2)[OF s1 run] show ?case by simp
qed

lemma visit_error:
  "visit T c s = Inl e \<Longrightarrow> (\<forall>v\<in>visiting s. (v, c) \<in> (dependsOn T)\<^sup>+) \<Longrightarrow>
     e = TypeError \<or>
     (\<exists>x. e = CircularDependencyError (''Circular dependency detected involving '' @ x) \<and>
          (x, x) \<in> (dependsOn T)\<^sup>+ \<and> (c, x) \<in> (dependsOn T)\<^sup>*)"
  "visitDeps T ds s = Inl e \<Longrightarrow> (\<forall>v\<in>visiting s. \<forall>d\<in>set ds. (v, d) \<in> (dependsOn T)\<^sup>+) \<Longrightarrow>
     e = TypeError \<or>
     (\<exists>x. e = CircularDependencyError (''Circular dependency detected involving '' @ x) \<and>
          (x, x) \<in> (dependsOn T)\<^sup>+ \<and> (\<exists>d\<in>set ds. (d, x) \<in> (dependsOn T)\<^sup>*))"
proof (induction T c s and T ds s arbitrary: e and e rule: visit_visitDeps.induct)
  case (1 T c s)
  show ?case
  proof (cases "c \<in> visiting s")
    case True
    with 1(2) have "e = CircularDependencyError (''Circular dependency detected involving '' @ c)"
      by (simp add: visit.simps)
    moreover from True 1(3) have "(c, c) \<in> (dependsOn T)\<^sup>+" by blast
    ultimately show ?thesis by blast
  next
    case nv: False
    show ?thesis
    proof (cases "c \<in> visited s \<or> map_of T c = None")
      case True
      with nv 1(2) show ?thesis by (auto simp: visit.simps split: if_splits)
    next
      case False
      then obtain d where c: "c \<notin> visited s" "map_of T c = Some d" by auto
      with nv 1(2) have
        run: "visitDeps T (currRowDependencies d) (s\<lparr>visiting := insert c (visiting s)\<rparr>) = Inl e"
        by (auto simp: visit.simps split: sum.splits)
      have edge: "\<And>d'. d' \<in> set (currRowDependencies d) \<Longrightarrow> (c, d') \<in> dependsOn T"
        using c(2) by (auto simp: dependsOn_def)
      have "\<forall>v\<in>visiting (s\<lparr>visiting := insert c (visiting s)\<rparr>).
              \<forall>d'\<in>set (currRowDependencies d). (v, d') \<in> (dependsOn T)\<^sup>+"
      proof (intro ballI)
        fix v d' assume v: "v \<in> visiting (s\<lparr>visiting := insert c (visiting s)\<rparr>)"
          and d': "d' \<in> set (currRowDependencies d)"
        show "(v, d') \<in> (dependsOn T)\<^sup>+"
        proof (cases "v = c")
          case True
          with edge[OF d'] show ?thesis by blast
        next
          case False
          with v 1(3) have "(v, c) \<in> (dependsOn T)\<^sup>+" by simp
          with edge[OF d'] show ?thesis by (rule trancl_into_trancl[rotated])
        qed
      qed
      from 1(1)[OF nv c run this] show ?thesis
      proof
        assume "e = TypeError" then show ?thesis by simp
      next
        assume "\<exists>x. e = CircularDependencyError (''Circular dependency detected involving '' @ x) \<and>
          (x, x) \<in> (dependsOn T)\<^sup>+ \<and> (\<exists>d'\<in>set (currRowDependencies d). (d', x) \<in> (dependsOn T)\<^sup>*)"
        then obtain x d' where x: "e = CircularDependencyError (''Circular dependency detected involving '' @ x)"
          "(x, x) \<in> (dependsOn T)\<^sup>+" "d' \<in> set (currRowDependencies d)" "(d', x) \<in> (dependsOn T)\<^sup>*"
          by blast
        from edge[OF x(3)] x(4) have "(c, x) \<in> (dependsOn T)\<^sup>*"
          by (rule converse_rtrancl_into_rtrancl)
        with x(1,2) show ?thesis by blast
      qed
    qed
  qed
next
  case (2 T s)
  then show ?case by simp
next
  case (3 T d ds s)
  show ?case
  proof (cases "visit T d s")
    case (Inl e')
    with 3(3) have e: "e' = e" by simp
    from 3(1)[OF Inl[unfolded e]] 3(4) show ?thesis by auto
  next
    case (Inr s1)
    with 3(3) have run: "visitDeps T ds s1 = Inl e" by simp
    from visit_visiting(1)[OF Inr] have "visiting s1 = visiting s" .
    with 3(4) have "\<forall>v\<in>visiting s1. \<forall>d\<in>set ds. (v, d) \<in> (dependsOn T)\<^sup>+" by simp
    from 3(2)[OF Inr run this] show ?thesis by auto
  qed
qed

lemma visit_no_TypeError:
  "visit T c s = Inl e \<Longrightarrow> c \<in> N \<Longrightarrow>
     (\<forall>x\<in>N. \<exists>cellDef. map_of T x = Some cellDef \<and> set (currRowDependencies cellDef) \<subseteq> N) \<Longrightarrow>
     e \<noteq> TypeError"
  "visitDeps T ds s = Inl e \<Longrightarrow> set ds \<subseteq> N \<Longrightarrow>
     (\<forall>x\<in>N. \<exists>cellDef. map_of T x = Some cellDef \<and> set (currRowDependencies cellDef) \<subseteq> N) \<Longrightarrow>
     e \<noteq> TypeError"
proof (induction T c s and T ds s arbitrary: e and e rule: visit_visitDeps.induct)
  case (1 T c s)
  from 1(3,4) obtain d where d: "map_of T c = Some d" "set (currRowDependencies d) \<subseteq> N" by blast
  show ?case
  proof (cases "c \<in> visiting s \<or> c \<in> visited s")
    case True
    with 1(2) show ?thesis by (auto simp: visit.simps split: if_splits)
  next
    case False
    with d(1) 1(2) have
      run: "visitDeps T (currRowDependencies d) (s\<lparr>visiting := insert c (visiting s)\<rparr>) = Inl e"
      by (auto simp: visit.simps split: sum.splits)
    from False have "c \<notin> visiting s" "c \<notin> visited s" by auto
    from 1(1)[OF this d(1) run d(2) 1(4)] show ?thesis .
  qed
next
  case (2 T s)
  then show ?case by simp
next
  case (3 T d ds s)
  show ?case
  proof (cases "visit T d s")
    case (Inl e')
    with 3(3) have e: "e' = e" by simp
    from 3(1)[OF Inl[unfolded e] _ 3(5)] 3(4) show ?thesis by simp
  next
    case (Inr s1)
    with 3(3) have run: "visitDeps T ds s1 = Inl e" by simp
    from 3(2)[OF Inr run _ 3(5)] 3(4) show ?thesis by simp
  qed
qed

subsection \<open>An order with dependencies first excludes cycles\<close>

lemma dependenciesFirst_trancl:
  assumes "dependenciesFirst T ord" "(c, d) \<in> (dependsOn T)\<^sup>+"
  shows "j < length ord \<Longrightarrow> ord ! j = c \<Longrightarrow> \<exists>i<j. ord ! i = d"
  using assms(2)
proof (induction arbitrary: j rule: trancl_induct)
  case (base y)
  then obtain cellDef where "map_of T c = Some cellDef" "y \<in> set (currRowDependencies cellDef)"
    by (auto simp: dependsOn_def)
  with dependenciesFirst_index[OF assms(1) base(2)] base(3) show ?case by simp
next
  case (step y z)
  from step(3)[OF step(4,5)] obtain i where i: "i < j" "ord ! i = y" by blast
  from step(2) obtain cellDef where "map_of T y = Some cellDef" "z \<in> set (currRowDependencies cellDef)"
    by (auto simp: dependsOn_def)
  with dependenciesFirst_index[OF assms(1), of i cellDef z] i step(4)
  obtain k where "k < i" "ord ! k = z" by auto
  with i(1) show ?case by (intro exI[of _ k]) simp
qed

lemma dependenciesFirst_rtrancl:
  assumes "dependenciesFirst T ord" "(r, c) \<in> (dependsOn T)\<^sup>*" "r \<in> set ord"
  shows "c \<in> set ord"
proof (cases "r = c")
  case True
  with assms(3) show ?thesis by simp
next
  case False
  with assms(2) have "(r, c) \<in> (dependsOn T)\<^sup>+" by (simp add: rtrancl_eq_or_trancl)
  moreover from assms(3) obtain j where "j < length ord" "ord ! j = r" by (auto simp: in_set_conv_nth)
  ultimately obtain i where "i < j" "ord ! i = c" using dependenciesFirst_trancl[OF assms(1)] by blast
  with \<open>j < length ord\<close> show ?thesis by (auto simp: in_set_conv_nth intro!: exI[of _ i])
qed

lemma dependenciesFirst_no_cycle:
  assumes "dependenciesFirst T ord" "distinct ord" "c \<in> set ord"
  shows "(c, c) \<notin> (dependsOn T)\<^sup>+"
proof
  assume cyc: "(c, c) \<in> (dependsOn T)\<^sup>+"
  from assms(3) obtain j where j: "j < length ord" "ord ! j = c" by (auto simp: in_set_conv_nth)
  from dependenciesFirst_trancl[OF assms(1) cyc j] obtain i where "i < j" "ord ! i = c" by blast
  with j assms(2) show False by (auto simp: distinct_conv_nth)
qed

subsection \<open>The outcome of the compiler\<close>

lemma compileLoop_error:
  "compileLoop T S s = Inl e \<Longrightarrow> visiting s = {} \<Longrightarrow>
     e = TypeError \<or>
     (\<exists>x. e = CircularDependencyError (''Circular dependency detected involving '' @ x) \<and>
          (x, x) \<in> (dependsOn T)\<^sup>+ \<and> (\<exists>r\<in>name ` set S. (r, x) \<in> (dependsOn T)\<^sup>*))"
proof (induction S arbitrary: s)
  case Nil
  then show ?case by simp
next
  case (Cons cell rest)
  show ?case
  proof (cases "name cell \<in> visited s")
    case True
    with Cons.prems(1) have "compileLoop T rest s = Inl e" by simp
    from Cons.IH[OF this Cons.prems(2)] show ?thesis by auto
  next
    case False
    show ?thesis
    proof (cases "visit T (name cell) s")
      case (Inl e')
      with False Cons.prems(1) have e: "e' = e" by simp
      from visit_error(1)[OF Inl[unfolded e]] Cons.prems(2) show ?thesis by auto
    next
      case (Inr s1)
      with False Cons.prems(1) have run: "compileLoop T rest s1 = Inl e" by simp
      from visit_visiting(1)[OF Inr] Cons.prems(2) have "visiting s1 = {}" by simp
      from Cons.IH[OF run this] show ?thesis by auto
    qed
  qed
qed

lemma compileLoop_no_TypeError:
  "compileLoop T S s = Inl e \<Longrightarrow> name ` set S \<subseteq> N \<Longrightarrow>
     (\<forall>x\<in>N. \<exists>cellDef. map_of T x = Some cellDef \<and> set (currRowDependencies cellDef) \<subseteq> N) \<Longrightarrow>
     e \<noteq> TypeError"
proof (induction S arbitrary: s)
  case Nil
  then show ?case by simp
next
  case (Cons cell rest)
  show ?case
  proof (cases "name cell \<in> visited s")
    case True
    with Cons.prems(1) have "compileLoop T rest s = Inl e" by simp
    from Cons.IH[OF this _ Cons.prems(3)] Cons.prems(2) show ?thesis by simp
  next
    case False
    show ?thesis
    proof (cases "visit T (name cell) s")
      case (Inl e')
      with False Cons.prems(1) have e: "e' = e" by simp
      from visit_no_TypeError(1)[OF Inl[unfolded e] _ Cons.prems(3)] Cons.prems(2) show ?thesis by simp
    next
      case (Inr s1)
      with False Cons.prems(1) have run: "compileLoop T rest s1 = Inl e" by simp
      from Cons.IH[OF run _ Cons.prems(3)] Cons.prems(2) show ?thesis by simp
    qed
  qed
qed

lemma compileExecutionOrder_Inl:
  assumes "compileExecutionOrder T S = Inl e"
  shows "e = TypeError \<or>
     (\<exists>x. e = CircularDependencyError (''Circular dependency detected involving '' @ x) \<and>
          (x, x) \<in> (dependsOn T)\<^sup>+ \<and> (\<exists>r\<in>name ` set S. (r, x) \<in> (dependsOn T)\<^sup>*))"
proof -
  from assms have "compileLoop T S \<lparr>executionOrder = [], visited = {}, visiting = {}\<rparr> = Inl e"
    by (auto simp: compileExecutionOrder_def split: sum.splits)
  from compileLoop_error[OF this] show ?thesis by simp
qed

lemma compileExecutionOrder_wellFormed_Inl:
  assumes "compileExecutionOrder T S = Inl e" "wellFormed T S"
  shows "e \<noteq> TypeError"
proof -
  from assms(1) have "compileLoop T S \<lparr>executionOrder = [], visited = {}, visiting = {}\<rparr> = Inl e"
    by (auto simp: compileExecutionOrder_def split: sum.splits)
  from compileLoop_no_TypeError[OF this subset_refl] assms(2) show ?thesis
    unfolding wellFormed_def by blast
qed

lemma compileExecutionOrder_Inr_acyclic:
  assumes "compileExecutionOrder T S = Inr ord"
  shows "\<not> hasCycle T S"
proof
  assume "hasCycle T S"
  then obtain r c where r: "r \<in> name ` set S" "(r, c) \<in> (dependsOn T)\<^sup>*"
    "(c, c) \<in> (dependsOn T)\<^sup>+" unfolding hasCycle_def by blast
  note ok = compileExecutionOrder_Inr[OF assms]
  from r(1) ok(3) have "r \<in> set ord" by auto
  from dependenciesFirst_rtrancl[OF ok(2) r(2) this] have "c \<in> set ord" .
  from dependenciesFirst_no_cycle[OF ok(2,1) this] r(3) show False by simp
qed

lemma compileExecutionOrder_cyclic:
  assumes "wellFormed T S" "hasCycle T S"
  shows "\<exists>c. compileExecutionOrder T S =
            Inl (CircularDependencyError (''Circular dependency detected involving '' @ c)) \<and>
          (c, c) \<in> (dependsOn T)\<^sup>+ \<and> (\<exists>r\<in>name ` set S. (r, c) \<in> (dependsOn T)\<^sup>*)"
proof (cases "compileExecutionOrder T S")
  case (Inl e)
  from compileExecutionOrder_Inl[OF Inl] compileExecutionOrder_wellFormed_Inl[OF Inl assms(1)]
  show ?thesis unfolding Inl by auto
next
  case (Inr ord)
  from compileExecutionOrder_Inr_acyclic[OF Inr] assms(2) show ?thesis by simp
qed

lemma compileExecutionOrder_acyclic:
  assumes "wellFormed T S" "\<not> hasCycle T S"
  shows "\<exists>ord. compileExecutionOrder T S = Inr ord"
proof (cases "compileExecutionOrder T S")
  case (Inl e)
  from compileExecutionOrder_Inl[OF Inl] compileExecutionOrder_wellFormed_Inl[OF Inl assms(1)]
  have "hasCycle T S" unfolding hasCycle_def by blast
  with assms(2) show ?thesis by simp
next
  case (Inr ord)
  then show ?thesis by blast
qed

subsection \<open>Columns without dependencies\<close>

lemma visit_no_dependencies:
  assumes "map_of T c = Some cellDef" "currRowDependencies cellDef = []"
    "c \<notin> visited s" "visiting s = {}"
  shows "visit T c s = Inr (s\<lparr>visited := insert c (visited s),
                              executionOrder := executionOrder s @ [c]\<rparr>)"
  using assms by (simp add: visit.simps)

lemma compileLoop_no_dependencies:
  "(\<forall>c\<in>name ` set S. \<exists>cellDef. map_of T c = Some cellDef \<and> currRowDependencies cellDef = []) \<Longrightarrow>
   distinct (map name S) \<Longrightarrow> visiting s = {} \<Longrightarrow> name ` set S \<inter> visited s = {} \<Longrightarrow>
   compileLoop T S s = Inr (s\<lparr>visited := visited s \<union> name ` set S,
                               executionOrder := executionOrder s @ map name S\<rparr>)"
proof (induction S arbitrary: s)
  case Nil
  then show ?case by simp
next
  case (Cons cell rest)
  from Cons.prems(1) obtain cellDef where
    d: "map_of T (name cell) = Some cellDef" "currRowDependencies cellDef = []" by auto
  from Cons.prems(4) have nv: "name cell \<notin> visited s" by auto
  let ?s1 = "s\<lparr>visited := insert (name cell) (visited s),
               executionOrder := executionOrder s @ [name cell]\<rparr>"
  have v: "visit T (name cell) s = Inr ?s1"
    by (rule visit_no_dependencies[OF d nv Cons.prems(3)])
  have "compileLoop T rest ?s1 = Inr (?s1\<lparr>visited := visited ?s1 \<union> name ` set rest,
          executionOrder := executionOrder ?s1 @ map name rest\<rparr>)"
    using Cons.prems by (intro Cons.IH) auto
  with v nv show ?case by simp
qed

section \<open>Claims about the dependency compiler\<close>

lemma basic_order:
  "compileExecutionOrder basicTemplate basicSchema = Inr [''b'', ''a'']"
  by (simp add: compileExecutionOrder_def basicTemplate_def basicSchema_def visit.simps)

lemma circular_order:
  "compileExecutionOrder circularTemplate basicSchema =
     Inl (CircularDependencyError (''Circular dependency detected involving '' @ ''a''))"
  by (simp add: compileExecutionOrder_def circularTemplate_def basicSchema_def visit.simps)

lemma basic_wellFormed: "wellFormed basicTemplate basicSchema"
  by (simp add: wellFormed_def basicTemplate_def basicSchema_def)

lemma circular_wellFormed: "wellFormed circularTemplate basicSchema"
  by (simp add: wellFormed_def circularTemplate_def basicSchema_def)

lemma circular_hasCycle: "hasCycle circularTemplate basicSchema"
proof -
  have ab: "(''a'', ''b'') \<in> dependsOn circularTemplate"
    and ba: "(''b'', ''a'') \<in> dependsOn circularTemplate"
    by (simp_all add: dependsOn_def circularTemplate_def)
  then have "(''a'', ''a'') \<in> (dependsOn circularTemplate)\<^sup>+" by (meson trancl.intros)
  moreover have "''a'' \<in> name ` set basicSchema" by (simp add: basicSchema_def)
  ultimately show ?thesis unfolding hasCycle_def by blast
qed

text \<open>
  Claim C1. In every order that \<open>compileExecutionOrder\<close> returns, each declared dependency
  stands strictly before its dependent: for a column \<open>c\<close> of the schema (or any name of the
  order) and a name \<open>d\<close> of its \<open>currRowDependencies\<close>, \<open>d\<close> occurs at an index \<open>i\<close> and
  \<open>c\<close> at an index \<open>j\<close> with \<open>i < j\<close>, and no name occurs twice. An order is returned
  exactly for the templates without a cycle (claim C2), so this covers every acyclic
  template.
\<close>

theorem compileExecutionOrder_dependencies_first:
  assumes "compileExecutionOrder T S = Inr ord"
    and "c \<in> name ` set S \<or> c \<in> set ord"
    and "map_of T c = Some cellDef"
    and "d \<in> set (currRowDependencies cellDef)"
  shows "distinct ord \<and> (\<exists>i j. i < j \<and> j < length ord \<and> ord ! i = d \<and> ord ! j = c)"
proof -
  from compileExecutionOrder_Inr[OF assms(1)] assms(2) have "c \<in> set ord" by auto
  then obtain j where j: "j < length ord" "ord ! j = c" by (auto simp: in_set_conv_nth)
  from dependenciesFirst_index[OF compileExecutionOrder_Inr(2)[OF assms(1)] j(1)] j(2) assms(3,4)
  obtain i where "i < j" "ord ! i = d" by auto
  with j compileExecutionOrder_Inr(1)[OF assms(1)] show ?thesis by blast
qed

theorem compileExecutionOrder_dependencies_first_witness:
  "compileExecutionOrder basicTemplate basicSchema = Inr [''b'', ''a''] \<and>
   (\<exists>i j. i < j \<and> j < length [''b'', ''a''] \<and> [''b'', ''a''] ! i = ''b'' \<and>
          [''b'', ''a''] ! j = ''a'')"
proof -
  have c: "''a'' \<in> name ` set basicSchema \<or> ''a'' \<in> set [''b'', ''a'']" by simp
  have cellDef: "map_of basicTemplate ''a'' =
      Some \<lparr>cellType = NumberKind, formula = (\<lambda>ctx. Inr (getProp (currRow ctx) ''b'')),
            currRowDependencies = [''b'']\<rparr>"
    by (simp add: basicTemplate_def)
  have "distinct [''b'', ''a''] \<and>
        (\<exists>i j. i < j \<and> j < length [''b'', ''a''] \<and> [''b'', ''a''] ! i = ''b'' \<and>
          [''b'', ''a''] ! j = ''a'')"
    by (rule compileExecutionOrder_dependencies_first[OF basic_order c cellDef]) simp
  with basic_order show ?thesis by blast
qed

text \<open>
  Claim C2. For a template that defines every schema column with dependencies inside the
  schema: when the dependency graph has a cycle that a schema column reaches (a column
  that depends on itself included), \<open>compileExecutionOrder\<close> raises
  \<open>CircularDependencyError\<close>, the message names a column that lies on a cycle, and no
  order is returned; when there is no such cycle it returns an order.
\<close>

theorem compileExecutionOrder_cycle_detection:
  assumes "wellFormed T S"
  shows "(hasCycle T S \<longrightarrow>
            (\<exists>c. compileExecutionOrder T S =
                    Inl (CircularDependencyError (''Circular dependency detected involving '' @ c)) \<and>
                 (c, c) \<in> (dependsOn T)\<^sup>+ \<and> (\<exists>r\<in>name ` set S. (r, c) \<in> (dependsOn T)\<^sup>*))) \<and>
         (\<not> hasCycle T S \<longrightarrow> (\<exists>ord. compileExecutionOrder T S = Inr ord))"
  using compileExecutionOrder_cyclic[OF assms] compileExecutionOrder_acyclic[OF assms] by blast

theorem compileExecutionOrder_cycle_detection_witness:
  "wellFormed circularTemplate basicSchema \<and> hasCycle circularTemplate basicSchema \<and>
   (\<exists>c. compileExecutionOrder circularTemplate basicSchema =
           Inl (CircularDependencyError (''Circular dependency detected involving '' @ c)) \<and>
        (c, c) \<in> (dependsOn circularTemplate)\<^sup>+) \<and>
   wellFormed basicTemplate basicSchema \<and> \<not> hasCycle basicTemplate basicSchema \<and>
   (\<exists>ord. compileExecutionOrder basicTemplate basicSchema = Inr ord)"
proof -
  have cyc: "\<exists>c. compileExecutionOrder circularTemplate basicSchema =
           Inl (CircularDependencyError (''Circular dependency detected involving '' @ c)) \<and>
        (c, c) \<in> (dependsOn circularTemplate)\<^sup>+"
    using compileExecutionOrder_cycle_detection[OF circular_wellFormed] circular_hasCycle
    by blast
  have acyc: "\<not> hasCycle basicTemplate basicSchema"
    using compileExecutionOrder_cycle_detection[OF basic_wellFormed] basic_order by auto
  then have "\<exists>ord. compileExecutionOrder basicTemplate basicSchema = Inr ord"
    using compileExecutionOrder_cycle_detection[OF basic_wellFormed] by blast
  with cyc acyc circular_wellFormed circular_hasCycle basic_wellFormed show ?thesis by blast
qed

text \<open>
  Claim C6. When the dependencies of every schema column are schema columns, the order
  that \<open>compileExecutionOrder\<close> returns holds exactly the column names of the schema and
  holds none of them twice; for a schema whose names are unique (as the data model
  requires) it is a permutation of the schema's column names.
\<close>

theorem compileExecutionOrder_permutation:
  assumes "compileExecutionOrder T S = Inr ord"
    and "\<forall>c\<in>name ` set S. \<forall>cellDef. map_of T c = Some cellDef \<longrightarrow>
           set (currRowDependencies cellDef) \<subseteq> name ` set S"
  shows "set ord = name ` set S \<and> distinct ord \<and>
         (distinct (map name S) \<longrightarrow> mset ord = mset (map name S))"
proof -
  from assms(1) obtain s' where
    run: "compileLoop T S \<lparr>executionOrder = [], visited = {}, visiting = {}\<rparr> = Inr s'"
    and ord: "ord = executionOrder s'"
    by (auto simp: compileExecutionOrder_def split: sum.splits)
  from compileLoop_inv[OF run compileInv_init] have "set ord = visited s'"
    unfolding ord by (simp add: compileInv_def)
  moreover from compileLoop_closed[OF run subset_refl _ assms(2)] have "visited s' \<subseteq> name ` set S"
    by simp
  ultimately have eq: "set ord = name ` set S"
    using compileExecutionOrder_Inr(3)[OF assms(1)] by auto
  have d: "distinct ord" by (rule compileExecutionOrder_Inr(1)[OF assms(1)])
  have "mset ord = mset (map name S)" if "distinct (map name S)"
  proof -
    from eq have "set ord = set (map name S)" by simp
    with d that show ?thesis by (simp only: set_eq_iff_mset_eq_distinct)
  qed
  with eq d show ?thesis by blast
qed

theorem compileExecutionOrder_permutation_witness:
  "compileExecutionOrder basicTemplate basicSchema = Inr [''b'', ''a''] \<and>
   set [''b'', ''a''] = name ` set basicSchema \<and> distinct [''b'', ''a''] \<and>
   distinct (map name basicSchema) \<and> mset [''b'', ''a''] = mset (map name basicSchema)"
proof -
  have deps: "\<forall>c\<in>name ` set basicSchema. \<forall>cellDef. map_of basicTemplate c = Some cellDef \<longrightarrow>
      set (currRowDependencies cellDef) \<subseteq> name ` set basicSchema"
    by (auto simp: basicTemplate_def basicSchema_def)
  have d: "distinct (map name basicSchema)" by (simp add: basicSchema_def)
  from compileExecutionOrder_permutation[OF basic_order deps] d basic_order
  show ?thesis by blast
qed

text \<open>
  Claim C10. When every column of the schema has a definition with an empty dependency
  list, \<open>compileExecutionOrder\<close> returns the column names of the schema in the order the
  schema declares them. The names of a schema are unique.
\<close>

theorem compileExecutionOrder_no_dependencies:
  assumes "\<forall>c\<in>name ` set S. \<exists>cellDef. map_of T c = Some cellDef \<and> currRowDependencies cellDef = []"
    and "distinct (map name S)"
  shows "compileExecutionOrder T S = Inr (map name S)"
  using compileLoop_no_dependencies[OF assms, of "\<lparr>executionOrder = [], visited = {}, visiting = {}\<rparr>"]
  by (simp add: compileExecutionOrder_def)

theorem compileExecutionOrder_no_dependencies_witness:
  "distinct (map name constantSchema) \<and>
   compileExecutionOrder constantTemplate constantSchema = Inr [''number'', ''flag'']"
proof -
  have deps: "\<forall>c\<in>name ` set constantSchema.
      \<exists>cellDef. map_of constantTemplate c = Some cellDef \<and> currRowDependencies cellDef = []"
    by (simp add: constantTemplate_def constantSchema_def)
  have d: "distinct (map name constantSchema)" by (simp add: constantSchema_def)
  from compileExecutionOrder_no_dependencies[OF deps d] d show ?thesis
    by (simp add: constantSchema_def)
qed

section \<open>Properties of the row evaluator and the driver\<close>

subsection \<open>What the evaluation of a row writes\<close>

lemma evaluateRow_frame:
  "evaluateRow T ord r p i st = Inr st' \<Longrightarrow>
     fresh st' = fresh st \<and> (\<forall>a. a \<noteq> r \<longrightarrow> objects st' a = objects st a)"
proof (induction ord arbitrary: st)
  case Nil
  then show ?case by simp
next
  case (Cons c cs)
  from Cons.prems obtain cellDef v where
    run: "evaluateRow T cs r p i
            (st\<lparr>objects := (objects st)(r := (objects st r)(c \<mapsto> v))\<rparr>) = Inr st'"
    by (auto split: option.splits sum.splits)
  from Cons.IH[OF run] show ?case by simp
qed

lemma evaluateRow_other_names:
  "evaluateRow T ord r p i st = Inr st' \<Longrightarrow> x \<notin> set ord \<Longrightarrow> objects st' r x = objects st r x"
proof (induction ord arbitrary: st)
  case Nil
  then show ?case by simp
next
  case (Cons c cs)
  from Cons.prems(1) obtain cellDef v where
    run: "evaluateRow T cs r p i
            (st\<lparr>objects := (objects st)(r := (objects st r)(c \<mapsto> v))\<rparr>) = Inr st'"
    by (auto split: option.splits sum.splits)
  from Cons.IH[OF run] Cons.prems(2) show ?case by simp
qed

subsection \<open>Independence of the store\<close>

lemma evaluateRow_deterministic:
  assumes "objects st1 r1 = objects st2 r2"
    and "map_option (objects st1) p1 = map_option (objects st2) p2"
    and "objects st1 i1 = objects st2 i2"
    and "r1 \<noteq> i1" "p1 \<noteq> Some r1" "r2 \<noteq> i2" "p2 \<noteq> Some r2"
  shows "rel_sum (=) (\<lambda>s1 s2. objects s1 r1 = objects s2 r2)
           (evaluateRow T ord r1 p1 i1 st1) (evaluateRow T ord r2 p2 i2 st2)"
  using assms(1-3)
proof (induction ord arbitrary: st1 st2)
  case Nil
  then show ?case by simp
next
  case (Cons c cs)
  show ?case
  proof (cases "map_of T c")
    case None
    then show ?thesis by simp
  next
    case (Some cellDef)
    have ctx: "formulaContext p1 r1 i1 st1 = formulaContext p2 r2 i2 st2"
      using Cons.prems by (simp add: formulaContext_def)
    show ?thesis
    proof (cases "formula cellDef (formulaContext p2 r2 i2 st2)")
      case (Inl e)
      with Some ctx show ?thesis by simp
    next
      case (Inr v)
      let ?s1 = "st1\<lparr>objects := (objects st1)(r1 := (objects st1 r1)(c \<mapsto> v))\<rparr>"
      let ?s2 = "st2\<lparr>objects := (objects st2)(r2 := (objects st2 r2)(c \<mapsto> v))\<rparr>"
      have a: "objects ?s1 r1 = objects ?s2 r2" using Cons.prems(1) by simp
      have b: "map_option (objects ?s1) p1 = map_option (objects ?s2) p2"
        using Cons.prems(2) assms(5,7) by (cases p1; cases p2) auto
      have c: "objects ?s1 i1 = objects ?s2 i2" using Cons.prems(3) assms(4,6) by simp
      from Cons.IH[OF a b c] Some ctx Inr show ?thesis by simp
    qed
  qed
qed

lemma processRowsLoop_frame:
  "processRowsLoop T ord inp n i rows p st = Inr (rows', st') \<Longrightarrow>
     fresh st \<le> fresh st' \<and> (\<forall>a<fresh st. objects st' a = objects st a) \<and>
     (\<exists>new. rows' = rows @ new \<and> int (length new) = max 0 (n - i) \<and>
            (\<forall>a\<in>set new. fresh st \<le> a \<and> a < fresh st'))"
proof (induction T ord inp n i rows p st rule: processRowsLoop.induct)
  case (1 T ord inp n i rows p st)
  show ?case
  proof (cases "i < n")
    case False
    with 1(2) show ?thesis by (simp add: processRowsLoop.simps)
  next
    case True
    obtain a st1 where alloc: "newObject st = (a, st1)" by (cases "newObject st")
    then have a: "a = fresh st" "fresh st1 = Suc (fresh st)"
      "objects st1 = (objects st)(fresh st := Map.empty)"
      by (auto simp: newObject_def)
    from True alloc 1(2) obtain st2 where
      ev: "evaluateRow T ord a p inp st1 = Inr st2"
      and run: "processRowsLoop T ord inp n (i + 1) (rows @ [a]) (Some a) st2 = Inr (rows', st')"
      by (subst (asm) processRowsLoop.simps) (auto split: sum.splits)
    from evaluateRow_frame[OF ev] a
    have f2: "fresh st2 = Suc (fresh st)" "\<forall>b. b \<noteq> fresh st \<longrightarrow> objects st2 b = objects st b"
      by auto
    from 1(1)[OF True alloc[symmetric] ev run]
    obtain new where n: "fresh st2 \<le> fresh st'" "\<forall>b<fresh st2. objects st' b = objects st2 b"
      "rows' = (rows @ [a]) @ new" "int (length new) = max 0 (n - (i + 1))"
      "\<forall>b\<in>set new. fresh st2 \<le> b \<and> b < fresh st'" by blast
    have "rows' = rows @ (a # new)" using n(3) by simp
    moreover have "int (length (a # new)) = max 0 (n - i)" using n(4) True by simp
    moreover have "\<forall>b\<in>set (a # new). fresh st \<le> b \<and> b < fresh st'"
      using n(1,5) f2(1) a(1) by auto
    moreover have "\<forall>b<fresh st. objects st' b = objects st b" using n(2) f2 by auto
    moreover have "fresh st \<le> fresh st'" using n(1) f2(1) by simp
    ultimately show ?thesis by blast
  qed
qed

lemma processRowsLoop_deterministic:
  assumes "objects st1 inp1 = objects st2 inp2" "inp1 < fresh st1" "inp2 < fresh st2"
    and "map_option (objects st1) p1 = map_option (objects st2) p2"
    and "\<forall>a. p1 = Some a \<longrightarrow> a < fresh st1" "\<forall>a. p2 = Some a \<longrightarrow> a < fresh st2"
    and "map (objects st1) rows1 = map (objects st2) rows2"
    and "\<forall>a\<in>set rows1. a < fresh st1" "\<forall>a\<in>set rows2. a < fresh st2"
  shows "map_sum id rowsOf (processRowsLoop T ord inp1 n i rows1 p1 st1) =
         map_sum id rowsOf (processRowsLoop T ord inp2 n i rows2 p2 st2)"
  using assms
proof (induction T ord inp1 n i rows1 p1 st1 arbitrary: inp2 rows2 p2 st2
        rule: processRowsLoop.induct)
  case (1 T ord inp1 n i rows1 p1 st1)
  show ?case
  proof (cases "i < n")
    case False
    with 1(8) show ?thesis by (simp add: processRowsLoop.simps rowsOf_def)
  next
    case True
    let ?a1 = "fresh st1" and ?a2 = "fresh st2"
    let ?s1 = "st1\<lparr>objects := (objects st1)(fresh st1 := Map.empty), fresh := Suc (fresh st1)\<rparr>"
    let ?s2 = "st2\<lparr>objects := (objects st2)(fresh st2 := Map.empty), fresh := Suc (fresh st2)\<rparr>"
    have alloc: "(?a1, ?s1) = newObject st1" by (simp add: newObject_def)
    have d1: "objects ?s1 ?a1 = objects ?s2 ?a2" by simp
    have d2: "map_option (objects ?s1) p1 = map_option (objects ?s2) p2"
      using 1(5,6,7) by (cases p1; cases p2) auto
    have d3: "objects ?s1 inp1 = objects ?s2 inp2" using 1(2,3,4) by simp
    have n1: "?a1 \<noteq> inp1" "p1 \<noteq> Some ?a1" using 1(3,6) by auto
    have n2: "?a2 \<noteq> inp2" "p2 \<noteq> Some ?a2" using 1(4,7) by auto
    note rel = evaluateRow_deterministic[OF d1 d2 d3 n1 n2, of T ord]
    show ?thesis
    proof (cases "evaluateRow T ord ?a1 p1 inp1 ?s1")
      case (Inl e)
      with rel have "evaluateRow T ord ?a2 p2 inp2 ?s2 = Inl e"
        by (cases "evaluateRow T ord ?a2 p2 inp2 ?s2") auto
      note this
      have l: "processRowsLoop T ord inp1 n i rows1 p1 st1 = Inl e"
        using True Inl by (subst processRowsLoop.simps) (simp add: newObject_def)
      have r: "processRowsLoop T ord inp2 n i rows2 p2 st2 = Inl e"
        using True \<open>evaluateRow T ord ?a2 p2 inp2 ?s2 = Inl e\<close>
        by (subst processRowsLoop.simps) (simp add: newObject_def)
      show ?thesis unfolding l r by simp
    next
      case (Inr t1)
      with rel obtain t2 where t2: "evaluateRow T ord ?a2 p2 inp2 ?s2 = Inr t2"
        and eq: "objects t1 ?a1 = objects t2 ?a2"
        by (cases "evaluateRow T ord ?a2 p2 inp2 ?s2") auto
      from evaluateRow_frame[OF Inr]
      have f1: "fresh t1 = Suc (fresh st1)" "\<forall>b. b \<noteq> ?a1 \<longrightarrow> objects t1 b = objects ?s1 b" by auto
      from evaluateRow_frame[OF t2]
      have f2: "fresh t2 = Suc (fresh st2)" "\<forall>b. b \<noteq> ?a2 \<longrightarrow> objects t2 b = objects ?s2 b" by auto
      have old1: "\<And>b. b < fresh st1 \<Longrightarrow> objects t1 b = objects st1 b" using f1(2) by auto
      have old2: "\<And>b. b < fresh st2 \<Longrightarrow> objects t2 b = objects st2 b" using f2(2) by auto
      have e1: "objects t1 inp1 = objects t2 inp2" using old1[OF 1(3)] old2[OF 1(4)] 1(2) by simp
      have e2: "map_option (objects t1) (Some ?a1) = map_option (objects t2) (Some ?a2)"
        using eq by simp
      have "map (objects t1) rows1 = map (objects st1) rows1" using old1 1(9) by auto
      moreover have "map (objects t2) rows2 = map (objects st2) rows2" using old2 1(10) by auto
      ultimately have e3: "map (objects t1) (rows1 @ [?a1]) = map (objects t2) (rows2 @ [?a2])"
        using 1(8) eq by simp
      have IH: "map_sum id rowsOf
                  (processRowsLoop T ord inp1 n (i + 1) (rows1 @ [?a1]) (Some ?a1) t1) =
                map_sum id rowsOf
                  (processRowsLoop T ord inp2 n (i + 1) (rows2 @ [?a2]) (Some ?a2) t2)"
        using 1(3,4,9,10) f1(1) f2(1)
        by (intro 1(1)[OF True alloc Inr e1 _ _ e2 _ _ e3]) auto
      have l: "processRowsLoop T ord inp1 n i rows1 p1 st1 =
                 processRowsLoop T ord inp1 n (i + 1) (rows1 @ [?a1]) (Some ?a1) t1"
        using True Inr by (subst processRowsLoop.simps) (simp add: newObject_def)
      have r: "processRowsLoop T ord inp2 n i rows2 p2 st2 =
                 processRowsLoop T ord inp2 n (i + 1) (rows2 @ [?a2]) (Some ?a2) t2"
        using True t2 by (subst processRowsLoop.simps) (simp add: newObject_def)
      show ?thesis unfolding l r by (rule IH)
    qed
  qed
qed

lemma processRows_store_independent:
  assumes "objects st1 inp1 = objects st2 inp2" "inp1 < fresh st1" "inp2 < fresh st2"
  shows "map_sum id rowsOf (processRows S T inp1 n st1) =
         map_sum id rowsOf (processRows S T inp2 n st2)"
proof (cases "compileExecutionOrder T S")
  case (Inl e)
  then show ?thesis by (simp add: processRows_def)
next
  case (Inr ord)
  have "map_sum id rowsOf (processRowsLoop T ord inp1 n 0 [] None st1) =
        map_sum id rowsOf (processRowsLoop T ord inp2 n 0 [] None st2)"
    using assms by (intro processRowsLoop_deterministic) auto
  with Inr show ?thesis by (simp add: processRows_def)
qed

lemma processRows_frame:
  assumes "processRows S T inp n st = Inr (rows, st')"
  shows "fresh st \<le> fresh st'" "\<forall>a<fresh st. objects st' a = objects st a"
    "int (length rows) = max 0 n" "\<forall>a\<in>set rows. fresh st \<le> a \<and> a < fresh st'"
proof -
  from assms obtain ord where "processRowsLoop T ord inp n 0 [] None st = Inr (rows, st')"
    by (auto simp: processRows_def split: sum.splits)
  from processRowsLoop_frame[OF this]
  show "fresh st \<le> fresh st'" "\<forall>a<fresh st. objects st' a = objects st a"
    "int (length rows) = max 0 n" "\<forall>a\<in>set rows. fresh st \<le> a \<and> a < fresh st'"
    by auto
qed

subsection \<open>Failures\<close>

lemma evaluateRow_failing_cell:
  "evaluateRow T ord r p i st = Inl e \<Longrightarrow> (\<forall>c\<in>set ord. map_of T c \<noteq> None) \<Longrightarrow>
     \<exists>k cellDef st_k. k < length ord \<and> evaluateRow T (take k ord) r p i st = Inr st_k \<and>
        map_of T (ord ! k) = Some cellDef \<and>
        formula cellDef (formulaContext p r i st_k) = Inl e"
proof (induction ord arbitrary: st)
  case Nil
  then show ?case by simp
next
  case (Cons c cs)
  from Cons.prems(2) obtain cellDef where d: "map_of T c = Some cellDef" by auto
  show ?case
  proof (cases "formula cellDef (formulaContext p r i st)")
    case (Inl e')
    with d Cons.prems(1) have "e' = e" by simp
    with Inl d have "0 < length (c # cs) \<and> evaluateRow T (take 0 (c # cs)) r p i st = Inr st \<and>
        map_of T ((c # cs) ! 0) = Some cellDef \<and>
        formula cellDef (formulaContext p r i st) = Inl e" by simp
    then show ?thesis by blast
  next
    case (Inr v)
    let ?s1 = "st\<lparr>objects := (objects st)(r := (objects st r)(c \<mapsto> v))\<rparr>"
    from Inr d Cons.prems(1) have "evaluateRow T cs r p i ?s1 = Inl e" by simp
    from Cons.IH[OF this] Cons.prems(2) obtain k cellDef' st_k where
      k: "k < length cs" "evaluateRow T (take k cs) r p i ?s1 = Inr st_k"
         "map_of T (cs ! k) = Some cellDef'"
         "formula cellDef' (formulaContext p r i st_k) = Inl e" by auto
    from k(2) d Inr have "evaluateRow T (take (Suc k) (c # cs)) r p i st = Inr st_k" by simp
    with k(1,3,4) have "Suc k < length (c # cs) \<and>
        evaluateRow T (take (Suc k) (c # cs)) r p i st = Inr st_k \<and>
        map_of T ((c # cs) ! Suc k) = Some cellDef' \<and>
        formula cellDef' (formulaContext p r i st_k) = Inl e" by simp
    then show ?thesis by blast
  qed
qed

lemma processRowsLoop_failing_row:
  "processRowsLoop T ord inp n i rows p st = Inl e \<Longrightarrow>
     \<exists>j rows' st'. i \<le> j \<and> j < n \<and>
        processRowsLoop T ord inp j i rows p st = Inr (rows', st') \<and>
        evaluateRow T ord (fresh st') (if j = i then p else Some (last rows')) inp
          (snd (newObject st')) = Inl e"
proof (induction T ord inp n i rows p st rule: processRowsLoop.induct)
  case (1 T ord inp n i rows p st)
  show ?case
  proof (cases "i < n")
    case False
    with 1(2) show ?thesis by (simp add: processRowsLoop.simps)
  next
    case True
    obtain a st1 where alloc: "newObject st = (a, st1)" by (cases "newObject st")
    then have a: "a = fresh st" "st1 = snd (newObject st)" by (auto simp: newObject_def)
    show ?thesis
    proof (cases "evaluateRow T ord a p inp st1")
      case (Inl e')
      with True alloc 1(2) have "e' = e" by (subst (asm) processRowsLoop.simps) simp
      moreover have "processRowsLoop T ord inp i i rows p st = Inr (rows, st)"
        by (subst processRowsLoop.simps) simp
      ultimately have "i \<le> i \<and> i < n \<and>
        processRowsLoop T ord inp i i rows p st = Inr (rows, st) \<and>
        evaluateRow T ord (fresh st) (if i = i then p else Some (last rows)) inp
          (snd (newObject st)) = Inl e"
        using True Inl a by simp
      then show ?thesis by blast
    next
      case (Inr st2)
      with True alloc 1(2)
      have "processRowsLoop T ord inp n (i + 1) (rows @ [a]) (Some a) st2 = Inl e"
        by (subst (asm) processRowsLoop.simps) simp
      from 1(1)[OF True alloc[symmetric] Inr this] obtain j rows' st' where
        j: "i + 1 \<le> j" "j < n"
           "processRowsLoop T ord inp j (i + 1) (rows @ [a]) (Some a) st2 = Inr (rows', st')"
           "evaluateRow T ord (fresh st') (if j = i + 1 then Some a else Some (last rows')) inp
              (snd (newObject st')) = Inl e" by blast
      have run: "processRowsLoop T ord inp j i rows p st = Inr (rows', st')"
        using j(1,3) alloc Inr by (subst processRowsLoop.simps) simp
      have "(if j = i + 1 then Some a else Some (last rows')) = Some (last rows')"
      proof (cases "j = i + 1")
        case True
        with j(3) have "rows' = rows @ [a]" by (subst (asm) processRowsLoop.simps) simp
        with True show ?thesis by simp
      next
        case False
        then show ?thesis by simp
      qed
      with j(4) have "evaluateRow T ord (fresh st') (if j = i then p else Some (last rows')) inp
              (snd (newObject st')) = Inl e" using j(1) by simp
      with run j(1,2) have "i \<le> j \<and> j < n \<and>
        processRowsLoop T ord inp j i rows p st = Inr (rows', st') \<and>
        evaluateRow T ord (fresh st') (if j = i then p else Some (last rows')) inp
          (snd (newObject st')) = Inl e" by simp
      then show ?thesis by blast
    qed
  qed
qed

lemma processRowsLoop_no_rows:
  "processRowsLoop T ord inp n 0 [] None st = Inr (rows, st') \<Longrightarrow> (rows = []) = (n \<le> 0)"
  by (drule processRowsLoop_frame) auto

lemma processRows_zero:
  "compileExecutionOrder T S = Inr ord \<Longrightarrow> processRows S T inp 0 st = Inr ([], st)"
  by (simp add: processRows_def processRowsLoop.simps)

lemma compileExecutionOrder_defined:
  assumes "compileExecutionOrder T S = Inr ord"
  shows "\<forall>c\<in>set ord. map_of T c \<noteq> None"
proof
  fix c assume "c \<in> set ord"
  then obtain k where "k < length ord" "ord ! k = c" by (auto simp: in_set_conv_nth)
  with compileExecutionOrder_Inr(2)[OF assms] show "map_of T c \<noteq> None"
    unfolding dependenciesFirst_def by force
qed

subsection \<open>The basic example\<close>

lemma basic_run:
  "processRows basicSchema basicTemplate 0 3 basicStore =
     Inr ([1, 2, 3],
          \<lparr>objects = (\<lambda>_. Map.empty)
             (0 := [''initialValue'' \<mapsto> NumberV 5],
              1 := [''b'' \<mapsto> NumberV 5, ''a'' \<mapsto> NumberV 5],
              2 := [''b'' \<mapsto> NumberV 6, ''a'' \<mapsto> NumberV 6],
              3 := [''b'' \<mapsto> NumberV 7, ''a'' \<mapsto> NumberV 7]),
            fresh = 4\<rparr>)"
  by (simp add: processRows_def basic_order,
      simp add: processRowsLoop.simps newObject_def basicStore_def
        basicTemplate_def formulaContext_def getProp_def numeral_eq_Suc)

lemma basic_rows:
  "map_sum id rowsOf (processRows basicSchema basicTemplate 0 3 basicStore) =
     Inr [[''a'' \<mapsto> NumberV 5, ''b'' \<mapsto> NumberV 5],
          [''a'' \<mapsto> NumberV 6, ''b'' \<mapsto> NumberV 6],
          [''a'' \<mapsto> NumberV 7, ''b'' \<mapsto> NumberV 7]]"
  unfolding basic_run by (simp add: rowsOf_def fun_upd_twist)

subsection \<open>The context of each formula\<close>

lemma evaluateRow_cells:
  assumes "r \<noteq> i" "p \<noteq> Some r"
  shows "evaluateRow T ord r p i st = Inr st' \<Longrightarrow> distinct ord \<Longrightarrow>
     (\<forall>k<length ord. \<exists>cellDef v. map_of T (ord ! k) = Some cellDef \<and>
        formula cellDef
          \<lparr>prevRow = map_option (objects st) p,
           currRow = (\<lambda>x. if x \<in> set (take k ord) then objects st' r x else objects st r x),
           inputs = objects st i\<rparr> = Inr v \<and>
        objects st' r (ord ! k) = Some v)"
proof (induction ord arbitrary: st)
  case Nil
  then show ?case by simp
next
  case (Cons c cs)
  from Cons.prems(1) obtain cellDef v where d: "map_of T c = Some cellDef"
    and f: "formula cellDef (formulaContext p r i st) = Inr v"
    and run: "evaluateRow T cs r p i
            (st\<lparr>objects := (objects st)(r := (objects st r)(c \<mapsto> v))\<rparr>) = Inr st'"
    by (auto split: option.splits sum.splits)
  let ?s1 = "st\<lparr>objects := (objects st)(r := (objects st r)(c \<mapsto> v))\<rparr>"
  from Cons.prems(2) have c: "c \<notin> set cs" and dcs: "distinct cs" by auto
  have final_c: "objects st' r c = Some v"
    using evaluateRow_other_names[OF run c] by simp
  have prev1: "map_option (objects ?s1) p = map_option (objects st) p"
    using assms(2) by (cases p) auto
  have inp1: "objects ?s1 i = objects st i" using assms(1) by simp
  show ?case
  proof (intro allI impI)
    fix k assume k: "k < length (c # cs)"
    show "\<exists>cellDef v. map_of T ((c # cs) ! k) = Some cellDef \<and>
        formula cellDef
          \<lparr>prevRow = map_option (objects st) p,
           currRow = (\<lambda>x. if x \<in> set (take k (c # cs)) then objects st' r x else objects st r x),
           inputs = objects st i\<rparr> = Inr v \<and>
        objects st' r ((c # cs) ! k) = Some v"
    proof (cases k)
      case 0
      have "formulaContext p r i st =
          \<lparr>prevRow = map_option (objects st) p,
           currRow = (\<lambda>x. if x \<in> set (take 0 (c # cs)) then objects st' r x else objects st r x),
           inputs = objects st i\<rparr>"
        by (simp add: formulaContext_def)
      with d f final_c 0 show ?thesis by auto
    next
      case (Suc k')
      with k have k': "k' < length cs" by simp
      from Cons.IH[OF run dcs] k' obtain cellDef' v' where
        d': "map_of T (cs ! k') = Some cellDef'"
        and f': "formula cellDef'
          \<lparr>prevRow = map_option (objects ?s1) p,
           currRow = (\<lambda>x. if x \<in> set (take k' cs) then objects st' r x else objects ?s1 r x),
           inputs = objects ?s1 i\<rparr> = Inr v'"
        and v': "objects st' r (cs ! k') = Some v'" by blast
      have "(\<lambda>x. if x \<in> set (take k' cs) then objects st' r x else objects ?s1 r x) =
            (\<lambda>x. if x \<in> set (take k (c # cs)) then objects st' r x else objects st r x)"
      proof
        fix x
        have "c \<notin> set (take k' cs)" using c by (auto dest: in_set_takeD)
        then show "(if x \<in> set (take k' cs) then objects st' r x else objects ?s1 r x) =
            (if x \<in> set (take k (c # cs)) then objects st' r x else objects st r x)"
          using final_c Suc by (cases "x = c") auto
      qed
      with f' prev1 inp1 have "formula cellDef'
          \<lparr>prevRow = map_option (objects st) p,
           currRow = (\<lambda>x. if x \<in> set (take k (c # cs)) then objects st' r x else objects st r x),
           inputs = objects st i\<rparr> = Inr v'" by simp
      with d' v' Suc show ?thesis by auto
    qed
  qed
qed

lemma evaluateRow_cellsComputed:
  assumes "evaluateRow T ord r p i st = Inr st'" "r \<noteq> i" "p \<noteq> Some r" "distinct ord"
    "objects st r = Map.empty"
  shows "cellsComputed T ord (map_option (objects st) p) (objects st i) (objects st' r)"
proof -
  have "(\<lambda>x. if x \<in> A then objects st' r x else objects st r x) = objects st' r |` A" for A
    using assms(5) by (auto simp: restrict_map_def)
  with evaluateRow_cells[OF assms(2,3,1,4)] show ?thesis
    unfolding cellsComputed_def by simp
qed

lemma processRowsLoop_cells:
  "processRowsLoop T ord inp n i rows p st = Inr (rows', st') \<Longrightarrow> inp < fresh st \<Longrightarrow>
   (\<forall>a. p = Some a \<longrightarrow> a < fresh st) \<Longrightarrow> distinct ord \<Longrightarrow>
     \<exists>new. rows' = rows @ new \<and>
       (\<forall>j<length new.
          cellsComputed T ord
            (if j = 0 then map_option (objects st) p else Some (objects st' (new ! (j - 1))))
            (objects st inp) (objects st' (new ! j)))"
proof (induction T ord inp n i rows p st rule: processRowsLoop.induct)
  case (1 T ord inp n i rows p st)
  show ?case
  proof (cases "i < n")
    case False
    with 1(2) show ?thesis by (simp add: processRowsLoop.simps)
  next
    case True
    obtain a st1 where alloc: "newObject st = (a, st1)" by (cases "newObject st")
    then have a: "a = fresh st" "fresh st1 = Suc (fresh st)"
      "objects st1 = (objects st)(fresh st := Map.empty)"
      by (auto simp: newObject_def)
    from True alloc 1(2) obtain st2 where
      ev: "evaluateRow T ord a p inp st1 = Inr st2"
      and run: "processRowsLoop T ord inp n (i + 1) (rows @ [a]) (Some a) st2 = Inr (rows', st')"
      by (subst (asm) processRowsLoop.simps) (auto split: sum.splits)
    have ne: "a \<noteq> inp" "p \<noteq> Some a" using 1(3,4) a(1) by auto
    from evaluateRow_frame[OF ev] a
    have f2: "fresh st2 = Suc (fresh st)" "\<forall>b. b \<noteq> fresh st \<longrightarrow> objects st2 b = objects st b"
      by auto
    have "cellsComputed T ord (map_option (objects st1) p) (objects st1 inp) (objects st2 a)"
      using a by (intro evaluateRow_cellsComputed[OF ev ne 1(5)]) simp
    moreover have "map_option (objects st1) p = map_option (objects st) p"
      using ne(2) a by (cases p) auto
    moreover have "objects st1 inp = objects st inp" using ne(1) a by simp
    ultimately have row0: "cellsComputed T ord (map_option (objects st) p) (objects st inp) (objects st2 a)"
      by simp
    have pre: "inp < fresh st2" "\<forall>b. Some a = Some b \<longrightarrow> b < fresh st2"
      using 1(3) f2(1) a(1) by auto
    from 1(1)[OF True alloc[symmetric] ev run pre 1(5)]
    obtain new where n: "rows' = (rows @ [a]) @ new"
      and cells: "\<forall>j<length new.
          cellsComputed T ord
            (if j = 0 then map_option (objects st2) (Some a) else Some (objects st' (new ! (j - 1))))
            (objects st2 inp) (objects st' (new ! j))" by blast
    from processRowsLoop_frame[OF run] f2(1) a(1)
    have keep: "objects st' a = objects st2 a" by auto
    have inp2: "objects st2 inp = objects st inp" using f2(2) 1(3) by auto
    have "\<forall>j<length (a # new).
          cellsComputed T ord
            (if j = 0 then map_option (objects st) p else Some (objects st' ((a # new) ! (j - 1))))
            (objects st inp) (objects st' ((a # new) ! j))"
    proof (intro allI impI)
      fix j assume j: "j < length (a # new)"
      show "cellsComputed T ord
            (if j = 0 then map_option (objects st) p else Some (objects st' ((a # new) ! (j - 1))))
            (objects st inp) (objects st' ((a # new) ! j))"
      proof (cases j)
        case 0
        with row0 keep show ?thesis by simp
      next
        case (Suc j')
        with j have "j' < length new" by simp
        with cells have "cellsComputed T ord
            (if j' = 0 then map_option (objects st2) (Some a) else Some (objects st' (new ! (j' - 1))))
            (objects st2 inp) (objects st' (new ! j'))" by blast
        moreover have "(if j' = 0 then map_option (objects st2) (Some a)
                        else Some (objects st' (new ! (j' - 1)))) =
                       Some (objects st' ((a # new) ! (j - 1)))"
          using Suc keep by (cases j') auto
        ultimately show ?thesis using Suc inp2 by simp
      qed
    qed
    moreover have "rows' = rows @ (a # new)" using n by simp
    ultimately show ?thesis by blast
  qed
qed

subsection \<open>The two variants\<close>

lemma visit_same_dependencies:
  assumes "\<forall>c. map_option currRowDependencies (map_of T' c) =
               map_option currRowDependencies (map_of T c)"
  shows "visit T' c s = visit T c s" "visitDeps T' ds s = visitDeps T ds s"
  using assms
proof (induction T c s and T ds s rule: visit_visitDeps.induct)
  case (1 T c s)
  show ?case
  proof (cases "c \<in> visiting s \<or> c \<in> visited s")
    case True
    then show ?thesis by (auto simp: visit.simps)
  next
    case False
    then have c: "c \<notin> visiting s" "c \<notin> visited s" by auto
    show ?thesis
    proof (cases "map_of T c")
      case None
      from 1(2) have "map_option currRowDependencies (map_of T' c) =
          map_option currRowDependencies (map_of T c)" by blast
      with None have "map_of T' c = None" by simp
      with None c show ?thesis by (simp add: visit.simps)
    next
      case (Some d)
      from 1(2) have "map_option currRowDependencies (map_of T' c) =
          map_option currRowDependencies (map_of T c)" by blast
      with Some obtain d' where d': "map_of T' c = Some d'"
        "currRowDependencies d' = currRowDependencies d"
        by (cases "map_of T' c") auto
      from 1(1)[OF c Some 1(2)] d' Some c show ?thesis by (simp add: visit.simps)
    qed
  qed
next
  case (2 T s)
  then show ?case by simp
next
  case (3 T d ds s)
  show ?case
  proof (cases "visit T d s")
    case (Inl e)
    with 3(1)[OF 3(3)] show ?thesis by simp
  next
    case (Inr s1)
    with 3(1)[OF 3(3)] 3(2)[OF Inr 3(3)] show ?thesis by simp
  qed
qed

lemma compileExecutionOrder_same_dependencies:
  assumes "\<forall>c. map_option currRowDependencies (map_of T' c) =
               map_option currRowDependencies (map_of T c)"
  shows "compileExecutionOrder T' S = compileExecutionOrder T S"
proof -
  have "compileLoop T' S s = compileLoop T S s" for s
    by (induction S arbitrary: s) (auto simp: visit_same_dependencies(1)[OF assms] split: sum.splits)
  then show ?thesis by (simp add: compileExecutionOrder_def)
qed

lemma readsCellStates_dependencies:
  assumes "readsCellStates T T'"
  shows "\<forall>c. map_option currRowDependencies (map_of T' c) =
             map_option currRowDependencies (map_of T c)"
proof
  fix c
  from assms have "rel_option
            (\<lambda>d d'. currRowDependencies d = currRowDependencies d' \<and>
                     (\<forall>ctx. formula d' ctx = formula d (wrapContext ctx)))
            (map_of T c) (map_of T' c)" unfolding readsCellStates_def by blast
  then show "map_option currRowDependencies (map_of T' c) =
             map_option currRowDependencies (map_of T c)"
    by (cases "map_of T c"; cases "map_of T' c") auto
qed

lemma engine_evaluateRow_frame:
  "engine_evaluateRow T ord r p i st = Inr st' \<Longrightarrow>
     fresh st' = fresh st \<and> (\<forall>a. a \<noteq> r \<longrightarrow> objects st' a = objects st a)"
proof (induction ord arbitrary: st)
  case Nil
  then show ?case by simp
next
  case (Cons c cs)
  from Cons.prems obtain cellDef v where
    run: "engine_evaluateRow T cs r p i
            (st\<lparr>objects := (objects st)(r := (objects st r)(c \<mapsto> cellState v))\<rparr>) = Inr st'"
    by (auto split: option.splits sum.splits)
  from Cons.IH[OF run] show ?case by simp
qed

lemma engine_evaluateRow_cellState:
  assumes "readsCellStates T T'" "r \<noteq> i" "p \<noteq> Some r"
  shows "objects st r = wrapRow (objects st' r) \<Longrightarrow>
     map_option (objects st) p = map_option (\<lambda>a. wrapRow (objects st' a)) p \<Longrightarrow>
     objects st i = objects st' i \<Longrightarrow>
     rel_sum (=) (\<lambda>s s'. objects s r = wrapRow (objects s' r))
           (engine_evaluateRow T ord r p i st) (evaluateRow T' ord r p i st')"
proof (induction ord arbitrary: st st')
  case Nil
  then show ?case by simp
next
  case (Cons c cs)
  from assms(1) have rel: "rel_option
            (\<lambda>d d'. currRowDependencies d = currRowDependencies d' \<and>
                     (\<forall>ctx. formula d' ctx = formula d (wrapContext ctx)))
            (map_of T c) (map_of T' c)" unfolding readsCellStates_def by blast
  show ?case
  proof (cases "map_of T c")
    case None
    with rel have "map_of T' c = None" by (cases "map_of T' c") auto
    with None show ?thesis by simp
  next
    case (Some d)
    with rel obtain d' where d': "map_of T' c = Some d'"
      "\<forall>ctx. formula d' ctx = formula d (wrapContext ctx)"
      by (cases "map_of T' c") auto
    have ctx: "formulaContext p r i st = wrapContext (formulaContext p r i st')"
      using Cons.prems by (cases p) (auto simp: formulaContext_def wrapContext_def)
    show ?thesis
    proof (cases "formula d (formulaContext p r i st)")
      case (Inl e)
      with Some d' ctx show ?thesis by simp
    next
      case (Inr v)
      let ?s = "st\<lparr>objects := (objects st)(r := (objects st r)(c \<mapsto> cellState v))\<rparr>"
      let ?s' = "st'\<lparr>objects := (objects st')(r := (objects st' r)(c \<mapsto> v))\<rparr>"
      have a: "objects ?s r = wrapRow (objects ?s' r)"
        using Cons.prems(1) by (auto simp: wrapRow_def)
      have b: "map_option (objects ?s) p = map_option (\<lambda>a. wrapRow (objects ?s' a)) p"
        using Cons.prems(2) assms(3) by (cases p) auto
      have c: "objects ?s i = objects ?s' i" using Cons.prems(3) assms(2) by simp
      from Cons.IH[OF a b c] Some d' ctx Inr show ?thesis by simp
    qed
  qed
qed

lemma engine_processRowsLoop_cellState:
  assumes "readsCellStates T T'" "inp < fresh st" "fresh st' = fresh st"
    "objects st inp = objects st' inp" "\<forall>a. p = Some a \<longrightarrow> a < fresh st"
    "map_option (objects st) p = map_option (\<lambda>a. wrapRow (objects st' a)) p"
    "\<forall>a\<in>set rows. a < fresh st"
    "map (objects st) rows = map (\<lambda>a. wrapRow (objects st' a)) rows"
  shows "map_sum id rowsOf (engine_processRowsLoop T ord inp n i rows p st) =
    map_sum id (map wrapRow \<circ> rowsOf) (processRowsLoop T' ord inp n i rows p st')"
  using assms
proof (induction T ord inp n i rows p st arbitrary: st' rule: engine_processRowsLoop.induct)
  case (1 T ord inp n i rows p st)
  note rc = "1.prems"(1) and inp = "1.prems"(2) and fr = "1.prems"(3) and ieq = "1.prems"(4)
    and pb = "1.prems"(5) and peq = "1.prems"(6) and rb = "1.prems"(7) and req = "1.prems"(8)
  show ?case
  proof (cases "i < n")
    case False
    with req show ?thesis
      by (simp add: processRowsLoop.simps engine_processRowsLoop.simps rowsOf_def)
  next
    case True
    let ?a = "fresh st"
    let ?s = "st\<lparr>objects := (objects st)(fresh st := Map.empty), fresh := Suc (fresh st)\<rparr>"
    let ?s' = "st'\<lparr>objects := (objects st')(fresh st := Map.empty), fresh := Suc (fresh st)\<rparr>"
    have alloc: "(?a, ?s) = newObject st" by (simp add: newObject_def)
    have alloc': "newObject st' = (?a, ?s')" using fr by (simp add: newObject_def)
    have ne: "?a \<noteq> inp" "p \<noteq> Some ?a" using inp pb by auto
    have d1: "objects ?s ?a = wrapRow (objects ?s' ?a)" by (simp add: wrapRow_def)
    have d2: "map_option (objects ?s) p = map_option (\<lambda>a. wrapRow (objects ?s' a)) p"
      using pb peq by (cases p) auto
    have d3: "objects ?s inp = objects ?s' inp" using inp ieq by simp
    note rel = engine_evaluateRow_cellState[OF rc ne d1 d2 d3, of ord]
    show ?thesis
    proof (cases "engine_evaluateRow T ord ?a p inp ?s")
      case (Inl e)
      from rel[unfolded Inl] have r': "evaluateRow T' ord ?a p inp ?s' = Inl e"
        by (cases "evaluateRow T' ord ?a p inp ?s'") auto
      have l: "engine_processRowsLoop T ord inp n i rows p st = Inl e"
        using True Inl by (subst engine_processRowsLoop.simps) (simp add: newObject_def)
      have r: "processRowsLoop T' ord inp n i rows p st' = Inl e"
        using True r' alloc' by (subst processRowsLoop.simps) simp
      show ?thesis unfolding l r by simp
    next
      case (Inr t)
      from rel[unfolded Inr] obtain t' where t': "evaluateRow T' ord ?a p inp ?s' = Inr t'"
        and eq: "objects t ?a = wrapRow (objects t' ?a)"
        by (cases "evaluateRow T' ord ?a p inp ?s'") auto
      from engine_evaluateRow_frame[OF Inr]
      have f1: "fresh t = Suc (fresh st)" "\<forall>b. b \<noteq> ?a \<longrightarrow> objects t b = objects ?s b" by auto
      from evaluateRow_frame[OF t']
      have f2: "fresh t' = Suc (fresh st)" "\<forall>b. b \<noteq> ?a \<longrightarrow> objects t' b = objects ?s' b" by auto
      have old1: "\<And>b. b < fresh st \<Longrightarrow> objects t b = objects st b" using f1(2) by auto
      have old2: "\<And>b. b < fresh st \<Longrightarrow> objects t' b = objects st' b" using f2(2) by auto
      have e0: "inp < fresh t" "fresh t' = fresh t" using inp f1(1) f2(1) by auto
      have e1: "objects t inp = objects t' inp" using old1[OF inp] old2[OF inp] ieq by simp
      have e2: "\<forall>b. Some ?a = Some b \<longrightarrow> b < fresh t" using f1(1) by simp
      have e3: "map_option (objects t) (Some ?a) = map_option (\<lambda>a. wrapRow (objects t' a)) (Some ?a)"
        using eq by simp
      have e4: "\<forall>b\<in>set (rows @ [?a]). b < fresh t" using rb f1(1) by auto
      have "map (objects t) rows = map (objects st) rows" using old1 rb by auto
      moreover have "map (\<lambda>a. wrapRow (objects t' a)) rows = map (\<lambda>a. wrapRow (objects st' a)) rows"
        using old2 rb by auto
      ultimately have e5: "map (objects t) (rows @ [?a]) = map (\<lambda>a. wrapRow (objects t' a)) (rows @ [?a])"
        using req eq by simp
      have IH: "map_sum id rowsOf
                  (engine_processRowsLoop T ord inp n (i + 1) (rows @ [?a]) (Some ?a) t) =
                map_sum id (map wrapRow \<circ> rowsOf)
                  (processRowsLoop T' ord inp n (i + 1) (rows @ [?a]) (Some ?a) t')"
        by (rule "1.IH"[OF True alloc Inr rc e0 e1 e2 e3 e4 e5])
      have l: "engine_processRowsLoop T ord inp n i rows p st =
                 engine_processRowsLoop T ord inp n (i + 1) (rows @ [?a]) (Some ?a) t"
        using True Inr by (subst engine_processRowsLoop.simps) (simp add: newObject_def)
      have r: "processRowsLoop T' ord inp n i rows p st' =
                 processRowsLoop T' ord inp n (i + 1) (rows @ [?a]) (Some ?a) t'"
        using True t' alloc' by (subst processRowsLoop.simps) simp
      show ?thesis unfolding l r by (rule IH)
    qed
  qed
qed

lemma constant_order:
  "compileExecutionOrder constantTemplate constantSchema = Inr [''number'', ''flag'']"
  by (simp add: compileExecutionOrder_def constantTemplate_def constantSchema_def visit.simps)

lemma constant_run:
  "processRows constantSchema constantTemplate 0 1 basicStore =
     Inr ([1], \<lparr>objects = (\<lambda>_. Map.empty)
             (0 := [''initialValue'' \<mapsto> NumberV 5],
              1 := [''number'' \<mapsto> NumberV 42, ''flag'' \<mapsto> BooleanV True]),
            fresh = 2\<rparr>)"
  by (simp add: processRows_def constant_order,
      simp add: processRowsLoop.simps newObject_def basicStore_def
        constantTemplate_def formulaContext_def numeral_eq_Suc)

lemma constant_engine_run:
  "engine_processRows constantSchema constantTemplate 0 1 basicStore =
     Inr ([1], \<lparr>objects = (\<lambda>_. Map.empty)
             (0 := [''initialValue'' \<mapsto> NumberV 5],
              1 := [''number'' \<mapsto> ObjectV [(''evaluatedValue'', NumberV 42)],
                    ''flag'' \<mapsto> ObjectV [(''evaluatedValue'', BooleanV True)]]),
            fresh = 2\<rparr>)"
  by (simp add: engine_processRows_def constant_order,
      simp add: engine_processRowsLoop.simps newObject_def basicStore_def
        constantTemplate_def formulaContext_def cellState_def numeral_eq_Suc)

section \<open>Claims about the row evaluator and the driver\<close>

text \<open>
  Claim C3. When \<open>compileExecutionOrder\<close> returns an order: for the count 0,
  \<open>processRows\<close> returns the empty sequence and leaves the store as it is; for a count
  \<open>n \<ge> 0\<close> it returns exactly \<open>n\<close> rows, unless a formula fails in the run. In that
  case \<open>j < n\<close> rows are complete (they are what \<open>processRows\<close> returns for the count
  \<open>j\<close>), the first \<open>k\<close> cells of row \<open>j\<close> are evaluated, and the formula of the next
  column of the order returns, on the context that \<open>evaluateRow\<close> gives it at that
  point, the error that \<open>processRows\<close> raises. So \<open>processRows\<close> returns \<open>n\<close> rows when
  compilation succeeds and no formula fails. When the template (one that fits the data
  model) has a reachable cycle, \<open>processRows\<close> raises \<open>CircularDependencyError\<close> and
  returns no rows, for every \<open>n\<close>, zero included: the compiler runs before the loop.
\<close>

theorem processRows_row_count:
  "(\<forall>ord. compileExecutionOrder T S = Inr ord \<longrightarrow>
      processRows S T inp 0 st = Inr ([], st) \<and>
      (0 \<le> n \<longrightarrow>
        (\<exists>rows st'. processRows S T inp n st = Inr (rows, st') \<and> int (length rows) = n) \<or>
        (\<exists>e j finished st1 k st2 cellDef.
            processRows S T inp n st = Inl e \<and> 0 \<le> j \<and> j < n \<and>
            processRows S T inp j st = Inr (finished, st1) \<and> k < length ord \<and>
            evaluateRow T (take k ord) (fresh st1)
              (if finished = [] then None else Some (last finished)) inp (snd (newObject st1)) = Inr st2 \<and>
            map_of T (ord ! k) = Some cellDef \<and>
            formula cellDef
              (formulaContext (if finished = [] then None else Some (last finished)) (fresh st1) inp st2) =
              Inl e))) \<and>
   (wellFormed T S \<longrightarrow> hasCycle T S \<longrightarrow>
      (\<exists>m. processRows S T inp n st = Inl (CircularDependencyError m)))"
proof (intro conjI allI impI)
  fix ord assume c: "compileExecutionOrder T S = Inr ord"
  then show "processRows S T inp 0 st = Inr ([], st)" by (rule processRows_zero)
next
  fix ord assume c: "compileExecutionOrder T S = Inr ord" and n: "0 \<le> n"
  show "(\<exists>rows st'. processRows S T inp n st = Inr (rows, st') \<and> int (length rows) = n) \<or>
        (\<exists>e j finished st1 k st2 cellDef.
            processRows S T inp n st = Inl e \<and> 0 \<le> j \<and> j < n \<and>
            processRows S T inp j st = Inr (finished, st1) \<and> k < length ord \<and>
            evaluateRow T (take k ord) (fresh st1)
              (if finished = [] then None else Some (last finished)) inp (snd (newObject st1)) = Inr st2 \<and>
            map_of T (ord ! k) = Some cellDef \<and>
            formula cellDef
              (formulaContext (if finished = [] then None else Some (last finished)) (fresh st1) inp st2) =
              Inl e)"
  proof (cases "processRows S T inp n st")
    case (Inl e)
    with c have "processRowsLoop T ord inp n 0 [] None st = Inl e" by (simp add: processRows_def)
    from processRowsLoop_failing_row[OF this] obtain j finished st1 where
      j: "0 \<le> j" "j < n" "processRowsLoop T ord inp j 0 [] None st = Inr (finished, st1)"
         "evaluateRow T ord (fresh st1) (if j = 0 then None else Some (last finished)) inp
            (snd (newObject st1)) = Inl e" by blast
    from processRowsLoop_no_rows[OF j(3)] j(1) have "(finished = []) = (j = 0)" by auto
    then have prev: "(if j = 0 then None else Some (last finished)) =
        (if finished = [] then None else Some (last finished))" by simp
    from evaluateRow_failing_cell[OF j(4)[unfolded prev] compileExecutionOrder_defined[OF c]]
    obtain k cellDef st2 where
      k: "k < length ord"
         "evaluateRow T (take k ord) (fresh st1)
              (if finished = [] then None else Some (last finished)) inp (snd (newObject st1)) = Inr st2"
         "map_of T (ord ! k) = Some cellDef"
         "formula cellDef
              (formulaContext (if finished = [] then None else Some (last finished)) (fresh st1) inp st2) =
              Inl e" by blast
    from j(3) c have "processRows S T inp j st = Inr (finished, st1)" by (simp add: processRows_def)
    with Inl j(1,2) k show ?thesis by blast
  next
    case (Inr r)
    obtain rows st' where r: "r = (rows, st')" by (cases r)
    from processRows_frame(3)[OF Inr[unfolded r]] n have "int (length rows) = n" by simp
    with Inr r show ?thesis by blast
  qed
next
  assume "wellFormed T S" "hasCycle T S"
  from compileExecutionOrder_cyclic[OF this]
  show "\<exists>m. processRows S T inp n st = Inl (CircularDependencyError m)"
    by (auto simp: processRows_def)
qed

theorem processRows_row_count_witness:
  "compileExecutionOrder basicTemplate basicSchema = Inr [''b'', ''a''] \<and> (0::int) \<le> 3 \<and>
   processRows basicSchema basicTemplate 0 0 basicStore = Inr ([], basicStore) \<and>
   (\<exists>rows st'. processRows basicSchema basicTemplate 0 3 basicStore = Inr (rows, st') \<and>
      int (length rows) = 3) \<and>
   wellFormed circularTemplate basicSchema \<and> hasCycle circularTemplate basicSchema \<and>
   (\<exists>m. processRows basicSchema circularTemplate 0 0 basicStore =
      Inl (CircularDependencyError m))"
proof -
  note basic = processRows_row_count[where T = basicTemplate and S = basicSchema and n = 3
      and inp = 0 and st = basicStore]
  note circular = processRows_row_count[where T = circularTemplate and S = basicSchema
      and n = 0 and inp = 0 and st = basicStore]
  have returns: "processRows basicSchema basicTemplate 0 3 basicStore \<noteq> Inl e" for e
    by (simp add: basic_run)
  from basic basic_order
  have zero: "processRows basicSchema basicTemplate 0 0 basicStore = Inr ([], basicStore)"
    by blast
  from basic basic_order returns
  have "\<exists>rows st'. processRows basicSchema basicTemplate 0 3 basicStore = Inr (rows, st') \<and>
      int (length rows) = 3" by auto
  moreover from circular circular_wellFormed circular_hasCycle
  have "\<exists>m. processRows basicSchema circularTemplate 0 0 basicStore =
      Inl (CircularDependencyError m)" by blast
  ultimately show ?thesis
    using basic_order circular_wellFormed circular_hasCycle zero by simp
qed

text \<open>
  Claim C4. In a run of \<open>processRows\<close> that returns (with the inputs an object of the
  store), every cell of row \<open>j\<close> is the result of its formula on a context whose
  \<open>prevRow\<close> is \<open>null\<close> for \<open>j = 0\<close> and, for \<open>j \<ge> 1\<close>, holds for every column the
  value that row \<open>j - 1\<close> has in the returned sequence; its \<open>currRow\<close> holds the cells of
  row \<open>j\<close> that precede the cell in the execution order, and its \<open>inputs\<close> are the inputs
  of the call. Every column of the order is evaluated once per row, so these are the
  contexts of all calls of formulas.
\<close>

theorem processRows_previous_row:
  assumes "processRows S T inp n st = Inr (rows, st')" and "inp < fresh st"
    and "j < length rows"
  shows "\<exists>ord. compileExecutionOrder T S = Inr ord \<and>
     (\<forall>k<length ord. \<exists>cellDef v. map_of T (ord ! k) = Some cellDef \<and>
        formula cellDef
          \<lparr>prevRow = (if j = 0 then None else Some (objects st' (rows ! (j - 1)))),
           currRow = objects st' (rows ! j) |` set (take k ord),
           inputs = objects st inp\<rparr> = Inr v \<and>
        objects st' (rows ! j) (ord ! k) = Some v)"
proof -
  from assms(1) obtain ord where c: "compileExecutionOrder T S = Inr ord"
    and run: "processRowsLoop T ord inp n 0 [] None st = Inr (rows, st')"
    by (auto simp: processRows_def split: sum.splits)
  from processRowsLoop_cells[OF run assms(2) _ compileExecutionOrder_Inr(1)[OF c]] assms(3)
  have "cellsComputed T ord (if j = 0 then None else Some (objects st' (rows ! (j - 1))))
          (objects st inp) (objects st' (rows ! j))" by auto
  with c show ?thesis unfolding cellsComputed_def by auto
qed

theorem processRows_previous_row_witness:
  "\<exists>rows st'. processRows basicSchema basicTemplate 0 3 basicStore = Inr (rows, st') \<and>
     0 < fresh basicStore \<and> 1 < length rows \<and>
     (\<exists>ord. compileExecutionOrder basicTemplate basicSchema = Inr ord \<and>
        (\<forall>k<length ord. \<exists>cellDef v. map_of basicTemplate (ord ! k) = Some cellDef \<and>
           formula cellDef
             \<lparr>prevRow = Some (objects st' (rows ! 0)),
              currRow = objects st' (rows ! 1) |` set (take k ord),
              inputs = objects basicStore 0\<rparr> = Inr v \<and>
           objects st' (rows ! 1) (ord ! k) = Some v))"
proof -
  obtain rows st' where run: "processRows basicSchema basicTemplate 0 3 basicStore = Inr (rows, st')"
    and len: "length rows = 3"
    by (simp add: basic_run)
  have inp: "0 < fresh basicStore" by (simp add: basicStore_def)
  have j: "1 < length rows" using len by simp
  from processRows_previous_row[OF run inp j] run inp j show ?thesis by simp
qed

text \<open>
  Claim C5. With the schema \<open>[a, b]\<close>, the template of the basic example, inputs
  \<open>{initialValue: 5}\<close> and a row count of 3, \<open>processRows\<close> returns the three rows
  \<open>{a: 5, b: 5}\<close>, \<open>{a: 6, b: 6}\<close>, \<open>{a: 7, b: 7}\<close>, in whatever store the call is made.
\<close>

theorem processRows_basic_example:
  assumes "inp < fresh st" and "objects st inp = [''initialValue'' \<mapsto> NumberV 5]"
  shows "map_sum id rowsOf (processRows basicSchema basicTemplate inp 3 st) =
     Inr [[''a'' \<mapsto> NumberV 5, ''b'' \<mapsto> NumberV 5],
          [''a'' \<mapsto> NumberV 6, ''b'' \<mapsto> NumberV 6],
          [''a'' \<mapsto> NumberV 7, ''b'' \<mapsto> NumberV 7]]"
proof -
  have "objects st inp = objects basicStore 0" using assms(2) by (simp add: basicStore_def)
  moreover have "0 < fresh basicStore" by (simp add: basicStore_def)
  ultimately have "map_sum id rowsOf (processRows basicSchema basicTemplate inp 3 st) =
      map_sum id rowsOf (processRows basicSchema basicTemplate 0 3 basicStore)"
    using assms(1) by (intro processRows_store_independent)
  then show ?thesis by (simp only: basic_rows)
qed

theorem processRows_basic_example_witness:
  "0 < fresh basicStore \<and> objects basicStore 0 = [''initialValue'' \<mapsto> NumberV 5] \<and>
   map_sum id rowsOf (processRows basicSchema basicTemplate 0 3 basicStore) =
     Inr [[''a'' \<mapsto> NumberV 5, ''b'' \<mapsto> NumberV 5],
          [''a'' \<mapsto> NumberV 6, ''b'' \<mapsto> NumberV 6],
          [''a'' \<mapsto> NumberV 7, ''b'' \<mapsto> NumberV 7]]"
proof -
  have inp: "0 < fresh basicStore"
    and obj: "objects basicStore 0 = [''initialValue'' \<mapsto> NumberV 5]"
    by (simp_all add: basicStore_def)
  from processRows_basic_example[OF inp obj] inp obj show ?thesis by blast
qed

text \<open>
  Claim C7. \<open>processRows\<close> is deterministic, the formulas being functions of their
  context: two calls with the same schema, template and row count, and with inputs of the
  same content, return the same rows or raise the same error, whatever else the store
  holds and wherever the inputs and the new rows are placed; in particular a second call
  made after a first one returns the same rows again.
\<close>

theorem processRows_deterministic:
  assumes "objects st1 inp1 = objects st2 inp2" "inp1 < fresh st1" "inp2 < fresh st2"
  shows "map_sum id rowsOf (processRows S T inp1 n st1) =
           map_sum id rowsOf (processRows S T inp2 n st2) \<and>
         (\<forall>rows st'. processRows S T inp1 n st1 = Inr (rows, st') \<longrightarrow>
            map_sum id rowsOf (processRows S T inp1 n st') = Inr (rowsOf (rows, st')))"
proof (intro conjI allI impI)
  show "map_sum id rowsOf (processRows S T inp1 n st1) =
        map_sum id rowsOf (processRows S T inp2 n st2)"
    by (rule processRows_store_independent[OF assms])
next
  fix rows st' assume run: "processRows S T inp1 n st1 = Inr (rows, st')"
  from processRows_frame(1,2)[OF run] assms(2)
  have "objects st' inp1 = objects st1 inp1" "inp1 < fresh st'" by auto
  from processRows_store_independent[OF this(1) this(2) assms(2), of S T n] run
  show "map_sum id rowsOf (processRows S T inp1 n st') = Inr (rowsOf (rows, st'))" by simp
qed

theorem processRows_deterministic_witness:
  "objects basicStore 0 = objects otherStore 4 \<and> 0 < fresh basicStore \<and>
   4 < fresh otherStore \<and>
   map_sum id rowsOf (processRows basicSchema basicTemplate 0 3 basicStore) =
     map_sum id rowsOf (processRows basicSchema basicTemplate 4 3 otherStore) \<and>
   (\<exists>rows st'. processRows basicSchema basicTemplate 0 3 basicStore = Inr (rows, st') \<and>
      map_sum id rowsOf (processRows basicSchema basicTemplate 0 3 st') =
        Inr (rowsOf (rows, st')))"
proof -
  have eq: "objects basicStore 0 = objects otherStore 4"
    and i1: "0 < fresh basicStore" and i2: "4 < fresh otherStore"
    by (simp_all add: basicStore_def otherStore_def)
  note det = processRows_deterministic[OF eq i1 i2, of basicSchema basicTemplate 3]
  obtain rows st' where run: "processRows basicSchema basicTemplate 0 3 basicStore = Inr (rows, st')"
    by (simp add: basic_run)
  with det have "map_sum id rowsOf (processRows basicSchema basicTemplate 0 3 st') =
        Inr (rowsOf (rows, st'))" by blast
  with det run eq i1 i2 show ?thesis by blast
qed

text \<open>
  Claim C8. A call of \<open>evaluateRow\<close> that returns writes the current row only, the
  formulas being functions that do not write: every object other than \<open>rowState\<close> is as
  before, and in \<open>rowState\<close> only the columns of the execution order are written. The
  row that \<open>processRows\<close> passes is a new object, so it is neither the previous row nor
  the inputs, and both are then equal to their values before the call.
\<close>

theorem evaluateRow_writes_current_row_only:
  assumes "evaluateRow T ord rowState prevRowState inp st = Inr st'"
    and "rowState \<noteq> inp" and "prevRowState \<noteq> Some rowState"
  shows "objects st' inp = objects st inp \<and>
         map_option (objects st') prevRowState = map_option (objects st) prevRowState \<and>
         (\<forall>a. a \<noteq> rowState \<longrightarrow> objects st' a = objects st a) \<and>
         (\<forall>x. x \<notin> set ord \<longrightarrow> objects st' rowState x = objects st rowState x) \<and>
         fresh st' = fresh st"
proof -
  note fr = evaluateRow_frame[OF assms(1)]
  from fr assms(2) have "objects st' inp = objects st inp" by simp
  moreover from fr assms(3)
  have "map_option (objects st') prevRowState = map_option (objects st) prevRowState"
    by (cases prevRowState) auto
  moreover have "\<forall>x. x \<notin> set ord \<longrightarrow> objects st' rowState x = objects st rowState x"
    using evaluateRow_other_names[OF assms(1)] by blast
  ultimately show ?thesis using fr by blast
qed

theorem evaluateRow_writes_current_row_only_witness:
  "\<exists>st'. evaluateRow basicTemplate [''b'', ''a''] 2 (Some 1) 0 secondRowStore = Inr st' \<and>
     (2::nat) \<noteq> 0 \<and> Some (1::nat) \<noteq> Some 2 \<and>
     objects st' 0 = objects secondRowStore 0 \<and>
     map_option (objects st') (Some 1) = map_option (objects secondRowStore) (Some 1) \<and>
     fresh st' = fresh secondRowStore"
proof -
  obtain st' where
    run: "evaluateRow basicTemplate [''b'', ''a''] 2 (Some 1) 0 secondRowStore = Inr st'"
    by (simp add: basicTemplate_def secondRowStore_def formulaContext_def getProp_def)
  have a: "(2::nat) \<noteq> 0" and b: "Some (1::nat) \<noteq> Some 2" by simp_all
  from evaluateRow_writes_current_row_only[OF run a b] run show ?thesis by simp
qed

text \<open>
  Claim C9, as amended. The two variants do not return equal rows: under each column
  \<open>src/engine.ts\<close> stores the cell state \<open>{ evaluatedValue: result }\<close> where the later
  variant stores \<open>result\<close>. They agree up to that shape: for corresponding templates (the
  same template when its formulas read only the inputs), one raises the error the other
  raises, or both return the same number of rows and each row of \<open>src/engine.ts\<close> is the
  row of the later variant with every value \<open>v\<close> replaced by \<open>{ evaluatedValue: v }\<close>.
\<close>

theorem engine_processRows_cellState:
  assumes "readsCellStates T T'" and "inp < fresh st"
  shows "map_sum id rowsOf (engine_processRows S T inp n st) =
         map_sum id (map wrapRow \<circ> rowsOf) (processRows S T' inp n st)"
proof -
  note c = compileExecutionOrder_same_dependencies[OF readsCellStates_dependencies[OF assms(1)], of S]
  show ?thesis
  proof (cases "compileExecutionOrder T S")
    case (Inl e)
    with c show ?thesis by (simp add: engine_processRows_def processRows_def)
  next
    case (Inr ord)
    have "map_sum id rowsOf (engine_processRowsLoop T ord inp n 0 [] None st) =
          map_sum id (map wrapRow \<circ> rowsOf) (processRowsLoop T' ord inp n 0 [] None st)"
      using assms(2) by (intro engine_processRowsLoop_cellState[OF assms(1)]) auto
    with Inr c show ?thesis by (simp add: engine_processRows_def processRows_def)
  qed
qed

theorem engine_processRows_cellState_witness:
  "readsCellStates constantTemplate constantTemplate \<and> 0 < fresh basicStore \<and>
   map_sum id rowsOf (engine_processRows constantSchema constantTemplate 0 2 basicStore) =
     map_sum id (map wrapRow \<circ> rowsOf) (processRows constantSchema constantTemplate 0 2 basicStore)"
proof -
  have r: "readsCellStates constantTemplate constantTemplate"
    by (simp add: readsCellStates_def constantTemplate_def)
  have i: "0 < fresh basicStore" by (simp add: basicStore_def)
  from engine_processRows_cellState[OF r i] r i show ?thesis by blast
qed

text \<open>
  The claim C9 as it was stated fails on the constant columns with one row: neither
  variant raises, and the rows differ, \<open>{number: { evaluatedValue: 42 }, ...}\<close> against
  \<open>{number: 42, ...}\<close>, as the two test suites expect of their variant.
\<close>

theorem engine_processRows_differs:
  "\<exists>rows1 st1 rows2 st2.
     engine_processRows constantSchema constantTemplate 0 1 basicStore = Inr (rows1, st1) \<and>
     processRows constantSchema constantTemplate 0 1 basicStore = Inr (rows2, st2) \<and>
     rowsOf (rows1, st1) \<noteq> rowsOf (rows2, st2)"
proof -
  have "[''number'' \<mapsto> ObjectV [(''evaluatedValue'', NumberV 42)],
         ''flag'' \<mapsto> ObjectV [(''evaluatedValue'', BooleanV True)]] ''number'' \<noteq>
        [''number'' \<mapsto> NumberV 42, ''flag'' \<mapsto> BooleanV True] ''number''" by simp
  then have "[''number'' \<mapsto> ObjectV [(''evaluatedValue'', NumberV 42)],
         ''flag'' \<mapsto> ObjectV [(''evaluatedValue'', BooleanV True)]] \<noteq>
        [''number'' \<mapsto> NumberV 42, ''flag'' \<mapsto> BooleanV True]" by metis
  then show ?thesis unfolding constant_run constant_engine_run by (simp add: rowsOf_def)
qed

end
